theory Spec2Isabelle
  imports Main "HOL-Library.Multiset"
begin

section \<open>Data model\<close>

type_synonym vox = "int \<times> int \<times> int"
type_synonym point_pair = "vox \<times> vox"

datatype error = IndexError | ValueError | TypeError | KeyError

datatype tree = Node
  (line: "point_pair list")
  (subtree: "tree list")
  (deep: "int list")
  (subLength: "int list")
  (dividePointIndex: "int list")
  (layer: int)

definition py_len :: "'a list \<Rightarrow> int" where
  "py_len xs = int (length xs)"

definition slice_from :: "'a list \<Rightarrow> int \<Rightarrow> 'a list" where
  "slice_from xs i = (if i < 0 then drop (nat (py_len xs + i)) xs else drop (nat i) xs)"

definition slice_to :: "'a list \<Rightarrow> int \<Rightarrow> 'a list" where
  "slice_to xs i = (if i < 0 then take (nat (py_len xs + i)) xs else take (nat i) xs)"

definition item :: "'a list \<Rightarrow> nat \<Rightarrow> error + 'a" where
  "item xs i = (if i < length xs then Inr (xs ! i) else Inl IndexError)"

fun argmax_from :: "int list \<Rightarrow> nat \<Rightarrow> int \<Rightarrow> nat \<Rightarrow> nat" where
  "argmax_from [] i best besti = besti"
| "argmax_from (x # xs) i best besti =
     (if best < x then argmax_from xs (Suc i) x i else argmax_from xs (Suc i) best besti)"

definition argmax :: "int list \<Rightarrow> error + nat" where
  "argmax xs = (case xs of [] \<Rightarrow> Inl ValueError | x # rest \<Rightarrow> Inr (argmax_from rest 1 x 0))"

section \<open>Depth annotation\<close>

text \<open>
  \<open>assign_depth\<close> appends to the \<open>deep\<close> and \<open>subLength\<close> lists of every node in place and
  returns (depth, length). The model returns the updated node together with the pair.
  The loop state is (max_deep, max_length, max_length_ind, children so far, deep, subLength).
\<close>

type_synonym depth_state = "int \<times> int \<times> int \<times> tree list \<times> int list \<times> int list"

fun assign_depth :: "tree \<Rightarrow> error + (tree \<times> int \<times> int)"
and assign_depth_loop :: "tree list \<Rightarrow> int list \<Rightarrow> nat \<Rightarrow> depth_state \<Rightarrow> error + depth_state" where
  "assign_depth (Node ln subs dp sl dpi ly) =
     (case assign_depth_loop subs dpi 0 (0, 0, 0, [], dp, sl) of
        Inl e \<Rightarrow> Inl e
      | Inr (max_deep, max_length, max_length_ind, subs', dp', sl') \<Rightarrow>
          Inr (Node ln subs' dp' sl' dpi ly,
               max_deep + 1, max_length + py_len (slice_from ln max_length_ind)))"
| "assign_depth_loop [] dpi i st = Inr st"
| "assign_depth_loop (subt # rest) dpi i (max_deep, max_length, max_length_ind, subs', dp, sl) =
     (case assign_depth subt of
        Inl e \<Rightarrow> Inl e
      | Inr (subt', sb_deep, sb_length) \<Rightarrow>
          (case item dpi i of
             Inl e \<Rightarrow> Inl e
           | Inr index \<Rightarrow>
               assign_depth_loop rest dpi (Suc i)
                 (max sb_deep max_deep,
                  (if sb_length > max_length then sb_length else max_length),
                  (if sb_length > max_length then index else max_length_ind),
                  subs' @ [subt'], dp @ [sb_deep], sl @ [sb_length])))"

fun empty_depth_info :: "tree \<Rightarrow> tree" where
  "empty_depth_info (Node ln subs dp sl dpi ly) =
     Node ln (map empty_depth_info subs) dp [] dpi ly"

section \<open>Canonicalisation\<close>

lemma item_size: "item ts i = Inr (s::tree) \<Longrightarrow> size s < Suc (size_list size ts)"
  using size_list_estimation'[of "ts ! i" ts "size (ts ! i)" size]
  by (auto simp: item_def less_Suc_eq_le split: if_splits)

lemma item_subtree_size: "item (subtree t) i = Inr s \<Longrightarrow> size s < size t"
  by (cases t) (auto dest: item_size)

function find_longest_line :: "tree \<Rightarrow> error + point_pair list" where
  "find_longest_line t =
     (if length (line t) > 0 \<and> length (subtree t) > 0 then
        (case argmax (subLength t) of
           Inl e \<Rightarrow> Inl e
         | Inr index \<Rightarrow>
             (case item (subtree t) index of
                Inl e \<Rightarrow> Inl e
              | Inr sub \<Rightarrow>
                  (case find_longest_line sub of
                     Inl e \<Rightarrow> Inl e
                   | Inr rest \<Rightarrow>
                       (case item (dividePointIndex t) index of
                          Inl e \<Rightarrow> Inl e
                        | Inr d \<Rightarrow> Inr (rest @ slice_from (line t) d)))))
      else Inr (line t))"
  by pat_completeness auto
termination
  by (relation "measure size") (auto dest: item_subtree_size)

declare find_longest_line.simps [simp del]

text \<open>
  A collected branch: the dict with keys \<open>branch\<close> and \<open>dividePointIndex\<close>.
\<close>

type_synonym branch = "tree \<times> int"

text \<open>
  The loop of the case \<open>dividePointIndex[max_length_ind] == 0\<close>, over \<open>enumerate(dividePointIndex)\<close>.
  \<open>sl_max\<close> is \<open>subLength[max_length_ind]\<close> and \<open>d_max\<close> is \<open>dividePointIndex[max_length_ind]\<close>.
\<close>

fun collect_siblings :: "tree \<Rightarrow> nat \<Rightarrow> int \<Rightarrow> int \<Rightarrow> (nat \<times> int) list \<Rightarrow> branch list
    \<Rightarrow> error + branch list" where
  "collect_siblings t m sl_max d_max [] branches = Inr branches"
| "collect_siblings t m sl_max d_max ((i, d) # rest) branches =
     (if i \<noteq> m then
        (case item (subtree t) i of
           Inl e \<Rightarrow> Inl e
         | Inr s \<Rightarrow> collect_siblings t m sl_max d_max rest (branches @ [(s, sl_max + d - d_max)]))
      else collect_siblings t m sl_max d_max rest branches)"

text \<open>
  The loop of the case \<open>dividePointIndex[max_length_ind] >= 1\<close>. The state is the synthetic
  node's \<open>subtree\<close>, \<open>dividePointIndex\<close> and \<open>subLength\<close> lists and the branches collected so far.
\<close>

type_synonym split_state = "tree list \<times> int list \<times> int list \<times> branch list"

fun split_siblings :: "tree \<Rightarrow> nat \<Rightarrow> int \<Rightarrow> int \<Rightarrow> (nat \<times> int) list \<Rightarrow> split_state
    \<Rightarrow> error + split_state" where
  "split_siblings t m sl_max d_max [] st = Inr st"
| "split_siblings t m sl_max d_max ((i, d) # rest) (nsub, ndpi, nsl, branches) =
     (if d < d_max then
        (case item (subtree t) i of
           Inl e \<Rightarrow> Inl e
         | Inr s \<Rightarrow>
             (case item (subLength t) i of
                Inl e \<Rightarrow> Inl e
              | Inr l \<Rightarrow>
                  split_siblings t m sl_max d_max rest (nsub @ [s], ndpi @ [d], nsl @ [l], branches)))
      else if d \<ge> d_max \<and> i \<noteq> m then
        (case item (subtree t) i of
           Inl e \<Rightarrow> Inl e
         | Inr s \<Rightarrow>
             split_siblings t m sl_max d_max rest (nsub, ndpi, nsl, branches @ [(s, sl_max + d - d_max)]))
      else split_siblings t m sl_max d_max rest (nsub, ndpi, nsl, branches))"

definition enumerate_dpi :: "tree \<Rightarrow> (nat \<times> int) list" where
  "enumerate_dpi t = zip [0..<length (dividePointIndex t)] (dividePointIndex t)"

text \<open>
  When \<open>dividePointIndex[max_length_ind]\<close> is negative the Python function falls off its end and
  returns \<open>None\<close>; both callers then raise \<open>TypeError\<close> (\<open>branches + None\<close>, \<open>for br in None\<close>),
  which is the value of the model there.
\<close>

function find_small_branches :: "tree \<Rightarrow> error + branch list" where
  "find_small_branches t =
     (if length (subtree t) = 0 then Inr []
      else
        (case argmax (subLength t) of
           Inl e \<Rightarrow> Inl e
         | Inr m \<Rightarrow>
             (case item (dividePointIndex t) m of
                Inl e \<Rightarrow> Inl e
              | Inr d_max \<Rightarrow>
                  (case item (subLength t) m of
                     Inl e \<Rightarrow> Inl e
                   | Inr sl_max \<Rightarrow>
                       if d_max = 0 then
                         (case collect_siblings t m sl_max d_max (enumerate_dpi t) [] of
                            Inl e \<Rightarrow> Inl e
                          | Inr branches \<Rightarrow>
                              (case item (subtree t) m of
                                 Inl e \<Rightarrow> Inl e
                               | Inr sub \<Rightarrow>
                                   (case find_small_branches sub of
                                      Inl e \<Rightarrow> Inl e
                                    | Inr more \<Rightarrow> Inr (branches @ more))))
                       else if d_max \<ge> 1 then
                         (case split_siblings t m sl_max d_max (enumerate_dpi t) ([], [], [], []) of
                            Inl e \<Rightarrow> Inl e
                          | Inr (nsub, ndpi, nsl, branches) \<Rightarrow>
                              (case item (subtree t) m of
                                 Inl e \<Rightarrow> Inl e
                               | Inr sub \<Rightarrow>
                                   (case find_small_branches sub of
                                      Inl e \<Rightarrow> Inl e
                                    | Inr more \<Rightarrow>
                                        Inr (branches
                                             @ [(Node (slice_to (line t) d_max) nsub [] nsl ndpi 999, sl_max)]
                                             @ more))))
                       else Inl TypeError))))"
  by pat_completeness auto
termination
  by (relation "measure size") (auto dest: item_subtree_size)

declare find_small_branches.simps [simp del]

fun max_list :: "int list \<Rightarrow> int" where
  "max_list [] = 0"
| "max_list (x # xs) = foldl max x xs"

text \<open>
  The loop \<open>for br in branches\<close> of \<open>create_new_tree_from_old\<close>; each branch comes with the
  result of the recursive call on it, and the first failing call ends the loop.
\<close>

fun attach_branches :: "((error + tree) \<times> branch) list \<Rightarrow> tree \<Rightarrow> error + tree" where
  "attach_branches [] new_tree = Inr new_tree"
| "attach_branches ((r, (b, d)) # rest) (Node ln subs dp sl dpi ly) =
     (case r of
        Inl e \<Rightarrow> Inl e
      | Inr c \<Rightarrow>
          attach_branches rest
            (Node ln (subs @ [c]) dp
               (if subLength b \<noteq> [] then sl @ [max_list (subLength b)] else sl)
               (dpi @ [d]) ly))"

lemma tree_size: "size t = Suc (size_list size (subtree t))"
  by (cases t) simp

lemma collect_siblings_size:
  "collect_siblings t m sl_max d_max es bs = Inr bs' \<Longrightarrow>
   \<forall>b\<in>set bs. size (fst b) < size t \<Longrightarrow> \<forall>b\<in>set bs'. size (fst b) < size t"
proof (induction es arbitrary: bs)
  case Nil
  then show ?case by simp
next
  case (Cons a es)
  obtain i d where a: "a = (i, d)" by (cases a)
  show ?case
  proof (cases "i \<noteq> m")
    case True
    with Cons.prems(1) a obtain s where s: "item (subtree t) i = Inr s"
      and rec: "collect_siblings t m sl_max d_max es (bs @ [(s, sl_max + d - d_max)]) = Inr bs'"
      by (auto split: sum.splits)
    from s have "size s < size t" by (rule item_subtree_size)
    with Cons.prems(2) have "\<forall>b\<in>set (bs @ [(s, sl_max + d - d_max)]). size (fst b) < size t"
      by simp
    from Cons.IH[OF rec this] show ?thesis .
  next
    case False
    with Cons.prems(1) a have "collect_siblings t m sl_max d_max es bs = Inr bs'" by simp
    from Cons.IH[OF this Cons.prems(2)] show ?thesis .
  qed
qed

text \<open>
  The children a synthetic node receives are children of \<open>t\<close> at pairwise different positions,
  none of them the dominant one.
\<close>

lemma split_siblings_shape:
  "split_siblings t m sl_max d_max es (nsub, ndpi, nsl, bs) = Inr (nsub', ndpi', nsl', bs') \<Longrightarrow>
   \<exists>js. nsub' = nsub @ map (\<lambda>j. subtree t ! j) js \<and> ndpi' = ndpi @ map snd (filter (\<lambda>e. snd e < d_max) es)
     \<and> js = map fst (filter (\<lambda>e. snd e < d_max) es) \<and> (\<forall>j\<in>set js. j < length (subtree t))
     \<and> nsl' = nsl @ map (\<lambda>j. subLength t ! j) js \<and> (\<forall>j\<in>set js. j < length (subLength t))"
proof (induction es arbitrary: nsub ndpi nsl bs)
  case Nil
  then show ?case by simp
next
  case (Cons a es)
  obtain i d where a: "a = (i, d)" by (cases a)
  show ?case
  proof (cases "d < d_max")
    case True
    with Cons.prems a obtain s l where s: "item (subtree t) i = Inr s" and l: "item (subLength t) i = Inr l"
      and rec: "split_siblings t m sl_max d_max es (nsub @ [s], ndpi @ [d], nsl @ [l], bs)
                = Inr (nsub', ndpi', nsl', bs')"
      by (auto split: sum.splits)
    from s l have il: "i < length (subtree t)" "s = subtree t ! i" "i < length (subLength t)" "l = subLength t ! i"
      by (auto simp: item_def split: if_splits)
    from Cons.IH[OF rec] il True a show ?thesis by auto
  next
    case False
    with Cons.prems a have "\<exists>bs2. split_siblings t m sl_max d_max es (nsub, ndpi, nsl, bs2)
                = Inr (nsub', ndpi', nsl', bs')"
      by (auto split: sum.splits if_splits)
    then obtain bs2 where "split_siblings t m sl_max d_max es (nsub, ndpi, nsl, bs2)
                = Inr (nsub', ndpi', nsl', bs')" by blast
    from Cons.IH[OF this] False a show ?thesis by auto
  qed
qed

lemma split_siblings_size:
  "split_siblings t m sl_max d_max es (nsub, ndpi, nsl, bs) = Inr (nsub', ndpi', nsl', bs') \<Longrightarrow>
   \<forall>b\<in>set bs. size (fst b) < size t \<Longrightarrow> \<forall>b\<in>set bs'. size (fst b) < size t"
proof (induction es arbitrary: nsub ndpi nsl bs)
  case Nil
  then show ?case by simp
next
  case (Cons a es)
  obtain i d where a: "a = (i, d)" by (cases a)
  from Cons.prems(1) a consider
      (keep) s l where "item (subtree t) i = Inr s"
        "split_siblings t m sl_max d_max es (nsub @ [s], ndpi @ [d], nsl @ [l], bs) = Inr (nsub', ndpi', nsl', bs')"
    | (branch) s where "item (subtree t) i = Inr s"
        "split_siblings t m sl_max d_max es (nsub, ndpi, nsl, bs @ [(s, sl_max + d - d_max)]) = Inr (nsub', ndpi', nsl', bs')"
    | (skip) "split_siblings t m sl_max d_max es (nsub, ndpi, nsl, bs) = Inr (nsub', ndpi', nsl', bs')"
    by (auto split: sum.splits if_splits)
  then show ?case
  proof cases
    case keep
    from Cons.IH[OF keep(2) Cons.prems(2)] show ?thesis .
  next
    case branch
    from branch(1) have "size s < size t" by (rule item_subtree_size)
    with Cons.prems(2) have "\<forall>b\<in>set (bs @ [(s, sl_max + d - d_max)]). size (fst b) < size t"
      by simp
    from Cons.IH[OF branch(2) this] show ?thesis .
  next
    case skip
    from Cons.IH[OF skip Cons.prems(2)] show ?thesis .
  qed
qed

lemma size_list_nths:
  assumes "distinct js" "\<forall>j\<in>set js. j < length xs" "m < length xs" "m \<notin> set js"
  shows "size_list f (map (\<lambda>j. xs ! j) js) < size_list f xs"
proof -
  let ?g = "\<lambda>j. Suc (f (xs ! j))"
  have "size_list f (map (\<lambda>j. xs ! j) js) = sum_list (map ?g js)"
    by (induction js) auto
  also have "\<dots> = sum ?g (set js)"
    using assms(1) by (simp add: sum_list_distinct_conv_sum_set)
  also have "\<dots> \<le> sum ?g ({..<length xs} - {m})"
    using assms(2,4) by (intro sum_mono2) auto
  also have "\<dots> < sum ?g ({..<length xs} - {m}) + ?g m" by simp
  also have "\<dots> = sum ?g {..<length xs}"
    using assms(3) by (simp add: sum.remove[of "{..<length xs}" m ?g])
  also have "\<dots> = sum_list (map ?g [0..<length xs])"
    by (simp add: interv_sum_list_conv_sum_set_nat atLeast0LessThan)
  also have "\<dots> = size_list f xs"
  proof -
    have "map ?g [0..<length xs] = map (\<lambda>x. Suc (f x)) xs"
      by (rule nth_equalityI) auto
    moreover have "sum_list (map (\<lambda>x. Suc (f x)) xs) = size_list f xs"
      by (induction xs) auto
    ultimately show ?thesis by simp
  qed
  finally show ?thesis .
qed

lemma enumerate_dpi_filter:
  assumes "item (dividePointIndex t) m = Inr d_max"
  shows "distinct (map fst (filter (\<lambda>e. snd e < d_max) (enumerate_dpi t)))"
    and "m \<notin> set (map fst (filter (\<lambda>e. snd e < d_max) (enumerate_dpi t)))"
proof -
  have "distinct (map fst (enumerate_dpi t))" by (simp add: enumerate_dpi_def)
  then show "distinct (map fst (filter (\<lambda>e. snd e < d_max) (enumerate_dpi t)))"
    by (rule distinct_map_filter)
  from assms have m: "m < length (dividePointIndex t)" "dividePointIndex t ! m = d_max"
    by (auto simp: item_def split: if_splits)
  show "m \<notin> set (map fst (filter (\<lambda>e. snd e < d_max) (enumerate_dpi t)))"
  proof
    assume "m \<in> set (map fst (filter (\<lambda>e. snd e < d_max) (enumerate_dpi t)))"
    then obtain d where "(m, d) \<in> set (enumerate_dpi t)" "d < d_max" by auto
    then show False using m by (auto simp: enumerate_dpi_def set_zip)
  qed
qed

lemma find_small_branches_size:
  "find_small_branches t = Inr bs \<Longrightarrow> \<forall>b\<in>set bs. size (fst b) < size t"
proof (induction t arbitrary: bs rule: find_small_branches.induct)
  case (1 t)
  show ?case
  proof (cases "length (subtree t) = 0")
    case True
    with "1.prems" show ?thesis by (simp add: find_small_branches.simps[of t])
  next
    case False
    with "1.prems" obtain m d_max sl_max sub more where
      m: "argmax (subLength t) = Inr m" and d: "item (dividePointIndex t) m = Inr d_max"
      and sl: "item (subLength t) m = Inr sl_max" and sub: "item (subtree t) m = Inr sub"
      and more: "find_small_branches sub = Inr more"
      and cases: "(d_max = 0 \<and> (\<exists>branches. collect_siblings t m sl_max d_max (enumerate_dpi t) [] = Inr branches
                      \<and> bs = branches @ more))
              \<or> (d_max \<ge> 1 \<and> (\<exists>nsub ndpi nsl branches.
                     split_siblings t m sl_max d_max (enumerate_dpi t) ([], [], [], []) = Inr (nsub, ndpi, nsl, branches)
                      \<and> bs = branches @ [(Node (slice_to (line t) d_max) nsub [] nsl ndpi 999, sl_max)] @ more))"
      by (simp add: find_small_branches.simps[of t] split: sum.splits if_splits prod.splits)
    have subsize: "size sub < size t" using sub by (rule item_subtree_size)
    from cases show ?thesis
    proof (elim disjE conjE exE)
      fix branches
      assume d0: "d_max = 0" and c: "collect_siblings t m sl_max d_max (enumerate_dpi t) [] = Inr branches"
        and bs: "bs = branches @ more"
      from "1.IH"(1)[OF False m d sl d0 c sub more] subsize
      have "\<forall>b\<in>set more. size (fst b) < size t" by auto
      moreover from collect_siblings_size[OF c] have "\<forall>b\<in>set branches. size (fst b) < size t" by simp
      ultimately show ?thesis using bs by auto
    next
      fix nsub ndpi nsl branches
      assume d1: "1 \<le> d_max"
        and c: "split_siblings t m sl_max d_max (enumerate_dpi t) ([], [], [], []) = Inr (nsub, ndpi, nsl, branches)"
        and bs: "bs = branches @ [(Node (slice_to (line t) d_max) nsub [] nsl ndpi 999, sl_max)] @ more"
      from d1 have n0: "d_max \<noteq> 0" by simp
      from "1.IH"(2)[OF False m d sl n0 d1 c refl refl refl sub more] subsize
      have "\<forall>b\<in>set more. size (fst b) < size t" by auto
      moreover from split_siblings_size[OF c] have "\<forall>b\<in>set branches. size (fst b) < size t" by simp
      moreover have "size (Node (slice_to (line t) d_max) nsub [] nsl ndpi 999) < size t"
      proof -
        from split_siblings_shape[OF c] have
          nsub: "nsub = map (\<lambda>j. subtree t ! j) (map fst (filter (\<lambda>e. snd e < d_max) (enumerate_dpi t)))"
          and lt: "\<forall>j\<in>set (map fst (filter (\<lambda>e. snd e < d_max) (enumerate_dpi t))). j < length (subtree t)"
          by auto
        from sub have "m < length (subtree t)" by (auto simp: item_def split: if_splits)
        from size_list_nths[OF enumerate_dpi_filter(1)[OF d] lt this enumerate_dpi_filter(2)[OF d], of size]
        show ?thesis unfolding nsub[symmetric] by (simp add: tree_size)
      qed
      ultimately show ?thesis using bs by auto
    qed
  qed
qed

function create_new_tree_from_old :: "tree \<Rightarrow> error + tree" where
  "create_new_tree_from_old t =
     (case find_longest_line t of
        Inl e \<Rightarrow> Inl e
      | Inr new_line \<Rightarrow>
          (case find_small_branches t of
             Inl e \<Rightarrow> Inl e
           | Inr branches \<Rightarrow>
               attach_branches (map (\<lambda>br. (create_new_tree_from_old (fst br), br)) branches)
                 (Node new_line [] [] [] [] 0)))"
  by pat_completeness auto
termination
proof (relation "measure size")
  show "wf (measure size)" by simp
next
  fix t new_line branches br
  assume "find_small_branches t = Inr branches" "br \<in> set branches"
  then show "(fst br, t) \<in> measure size"
    using find_small_branches_size by auto
qed

declare create_new_tree_from_old.simps [simp del]

section \<open>Labelling the skeleton\<close>

type_synonym shape = "int \<times> int \<times> int"
type_synonym grades = "vox \<Rightarrow> nat"
type_synonym queue_entry = "vox \<times> nat \<times> vox"

text \<open>
  A Python dict keeps its keys in insertion order: an association list with one entry per key,
  a new key going to the end.
\<close>

fun dict_get :: "('k \<times> 'v) list \<Rightarrow> 'k \<Rightarrow> error + 'v" where
  "dict_get [] k = Inl KeyError"
| "dict_get ((k', v) # rest) k = (if k' = k then Inr v else dict_get rest k)"

fun dict_set :: "('k \<times> 'v) list \<Rightarrow> 'k \<Rightarrow> 'v \<Rightarrow> ('k \<times> 'v) list" where
  "dict_set [] k v = [(k, v)]"
| "dict_set ((k', v') # rest) k v =
     (if k' = k then (k, v) # rest else (k', v') # dict_set rest k v)"

type_synonym pair_dict = "(nat \<times> point_pair list) list"

definition directions :: "vox list" where
  "directions =
     [(-1, 0, 0), (1, 0, 0), (0, -1, 0), (0, 1, 0), (0, 0, -1),
      (0, 0, 1), (-1, -1, 0), (-1, 1, 0), (1, -1, 0), (1, 1, 0),
      (-1, 0, -1), (-1, 0, 1), (1, 0, -1), (1, 0, 1), (0, -1, -1),
      (0, -1, 1), (0, 1, -1), (0, 1, 1), (-1, -1, -1), (-1, -1, 1),
      (-1, 1, -1), (-1, 1, 1), (1, -1, -1), (1, 1, -1), (1, -1, 1), (1, 1, 1)]"

definition in_bounds :: "shape \<Rightarrow> vox \<Rightarrow> bool" where
  "in_bounds sh v =
     (case sh of (sx, sy, sz) \<Rightarrow> case v of (x, y, z) \<Rightarrow>
        0 \<le> x \<and> x < sx \<and> 0 \<le> y \<and> y < sy \<and> 0 \<le> z \<and> z < sz)"

definition record_pair :: "pair_dict \<Rightarrow> nat \<Rightarrow> point_pair \<Rightarrow> pair_dict" where
  "record_pair plp new_grade pr =
     (case dict_get plp new_grade of
        Inl e \<Rightarrow> dict_set plp new_grade [pr]
      | Inr prs \<Rightarrow> dict_set plp new_grade (prs @ [pr]))"

text \<open>
  One pass of the loop over \<open>directions\<close> for the dequeued voxel \<open>v\<close>; the state is
  (connections, grades, queue, point_list_with_prior).
\<close>

type_synonym visit_state = "nat \<times> grades \<times> queue_entry list \<times> pair_dict"

definition visit :: "shape \<Rightarrow> (vox \<Rightarrow> int) \<Rightarrow> vox \<Rightarrow> nat \<Rightarrow> visit_state \<Rightarrow> vox \<Rightarrow> visit_state" where
  "visit sh vessel_data v current_grade st dir =
     (case st of (connections, grades, queue, plp) \<Rightarrow>
      case v of (x, y, z) \<Rightarrow>
      case dir of (dx, dy, dz) \<Rightarrow>
        let n = (x + dx, y + dy, z + dz) in
        if in_bounds sh n then
          if vessel_data n = 1 \<and> grades n = 0 then
            let new_grade = (if connections + 1 > 1 then current_grade + 1 else current_grade)
            in (connections + 1, grades(n := new_grade), queue @ [(n, new_grade, v)],
                record_pair plp new_grade (n, v))
          else st
        else st)"

type_synonym label_state = "grades \<times> queue_entry list \<times> pair_dict"

definition label_step :: "shape \<Rightarrow> (vox \<Rightarrow> int) \<Rightarrow> queue_entry \<Rightarrow> label_state \<Rightarrow> label_state" where
  "label_step sh vessel_data entry st =
     (case st of (grades, rest, plp) \<Rightarrow>
      case entry of (v, current_grade, prev) \<Rightarrow>
      case foldl (visit sh vessel_data v current_grade) (0, grades, rest, plp) directions of
        (connections, grades', queue', plp') \<Rightarrow> (grades', queue', plp'))"

text \<open>
  The loop \<open>while queue\<close>. It need not end from every state (a queue entry of grade 0 labels
  its neighbours 0, which leaves them unlabelled), so not returning is the value \<open>None\<close>.
\<close>

partial_function (option) label_loop :: "shape \<Rightarrow> (vox \<Rightarrow> int) \<Rightarrow> label_state \<Rightarrow> label_state option" where
  "label_loop sh vessel_data st =
     (case st of (grades, queue, plp) \<Rightarrow>
        (case queue of
           [] \<Rightarrow> Some st
         | entry # rest \<Rightarrow> label_loop sh vessel_data (label_step sh vessel_data entry (grades, rest, plp))))"

text \<open>
  Indexing a numpy axis of length \<open>n\<close>: a negative index counts from the end, anything outside
  \<open>[-n, n)\<close> raises \<open>IndexError\<close>.
\<close>

definition np_index :: "int \<Rightarrow> int \<Rightarrow> int option" where
  "np_index n i =
     (if 0 \<le> i \<and> i < n then Some i else if - n \<le> i \<and> i < 0 then Some (i + n) else None)"

definition np_index3 :: "shape \<Rightarrow> vox \<Rightarrow> vox option" where
  "np_index3 sh v =
     (case sh of (sx, sy, sz) \<Rightarrow> case v of (x, y, z) \<Rightarrow>
        (case np_index sx x of
           None \<Rightarrow> None
         | Some x' \<Rightarrow>
             (case np_index sy y of
                None \<Rightarrow> None
              | Some y' \<Rightarrow>
                  (case np_index sz z of None \<Rightarrow> None | Some z' \<Rightarrow> Some (x', y', z')))))"

subsection \<open>Segments\<close>

type_synonym segment_dict = "(nat \<times> point_pair list) list"
type_synonym seg_dict = "(nat \<times> segment_dict) list"

definition enumerate_list :: "'a list \<Rightarrow> (nat \<times> 'a) list" where
  "enumerate_list xs = zip [0..<length xs] xs"

text \<open>The first loop of the \<open>while\<close> body: the first pair not yet read.\<close>

fun find_unread :: "(nat \<times> point_pair) list \<Rightarrow> nat list \<Rightarrow> error + (nat \<times> point_pair) option" where
  "find_unread [] readed = Inr None"
| "find_unread ((i, pp) # rest) readed =
     (case item readed i of
        Inl e \<Rightarrow> Inl e
      | Inr r \<Rightarrow> if r = 1 then find_unread rest readed else Inr (Some (i, pp)))"

text \<open>
  The second loop: the first unread pair that extends the current segment, at its tail
  (\<open>append\<close>, \<open>True\<close>) or at its head (\<open>appendleft\<close>, \<open>False\<close>).
\<close>

fun find_extension :: "(nat \<times> point_pair) list \<Rightarrow> nat list \<Rightarrow> segment_dict \<Rightarrow> nat
    \<Rightarrow> error + (nat \<times> point_pair \<times> bool) option" where
  "find_extension [] readed segs seg_num = Inr None"
| "find_extension ((i, pp) # rest) readed segs seg_num =
     (case item readed i of
        Inl e \<Rightarrow> Inl e
      | Inr r \<Rightarrow>
          if r = 1 then find_extension rest readed segs seg_num
          else
            (case dict_get segs seg_num of
               Inl e \<Rightarrow> Inl e
             | Inr cur \<Rightarrow>
                 if cur = [] then Inl IndexError
                 else if fst pp = snd (last cur) then Inr (Some (i, pp, True))
                 else if snd pp = fst (hd cur) then Inr (Some (i, pp, False))
                 else find_extension rest readed segs seg_num))"

type_synonym seed_state = "nat list \<times> nat \<times> segment_dict"
type_synonym segment_state = "nat list \<times> nat \<times> segment_dict \<times> nat"

definition seed_segment :: "point_pair list \<Rightarrow> seed_state \<Rightarrow> error + seed_state" where
  "seed_segment pl st =
     (case st of (readed, seg_num, segs) \<Rightarrow>
        (case find_unread (enumerate_list pl) readed of
           Inl e \<Rightarrow> Inl e
         | Inr None \<Rightarrow> Inr (readed, seg_num + 1, segs)
         | Inr (Some (i, pp)) \<Rightarrow>
             Inr (readed[i := 1], seg_num + 1, dict_set segs (seg_num + 1) [pp])))"

definition unread :: "nat list \<Rightarrow> nat" where
  "unread readed = length (filter (\<lambda>r. r \<noteq> 1) readed)"


lemma find_unread_Some:
  "find_unread es readed = Inr (Some (i, pp)) \<Longrightarrow> i < length readed \<and> readed ! i \<noteq> 1 \<and> (i, pp) \<in> set es"
  by (induction es) (auto simp: item_def split: if_splits sum.splits)

lemma find_extension_Some:
  "find_extension es readed segs seg_num = Inr (Some (i, pp, b)) \<Longrightarrow>
   i < length readed \<and> readed ! i \<noteq> 1 \<and> (i, pp) \<in> set es"
  by (induction es) (auto simp: item_def split: if_splits sum.splits)

lemma unread_update:
  "i < length readed \<Longrightarrow> readed ! i \<noteq> 1 \<Longrightarrow> Suc (unread (readed[i := 1])) = unread readed"
proof (induction readed arbitrary: i)
  case Nil
  then show ?case by simp
next
  case (Cons r readed)
  then show ?case by (cases i) (auto simp: unread_def)
qed

lemma find_unread_None_prefix:
  "find_unread (zip [k..<k + length xs] xs) readed = Inr None \<Longrightarrow>
   (\<forall>j. k \<le> j \<and> j < k + length xs \<longrightarrow> j < length readed \<and> readed ! j = 1)"
proof (induction xs arbitrary: k)
  case Nil
  then show ?case by simp
next
  case (Cons x xs)
  have "[k..<k + length (x # xs)] = k # [Suc k..<Suc k + length xs]"
    using upt_conv_Cons[of k "k + Suc (length xs)"] by simp
  with Cons.prems have k: "k < length readed" "readed ! k = 1"
    and rec: "find_unread (zip [Suc k..<Suc k + length xs] xs) readed = Inr None"
    by (auto simp: item_def split: if_splits sum.splits)
  from Cons.IH[OF rec] k show ?case
    by (auto simp: less_Suc_eq_le Suc_le_eq dest: le_neq_implies_less)
qed

lemma sum_list_ones: "\<forall>j<n. j < length (readed::nat list) \<and> readed ! j = 1 \<Longrightarrow> n \<le> sum_list readed"
proof (induction n arbitrary: readed)
  case 0
  then show ?case by simp
next
  case (Suc n)
  then obtain r rs where r: "readed = r # rs" by (cases readed) auto
  with Suc.prems have "r = 1" by auto
  moreover have "\<forall>j<n. j < length rs \<and> rs ! j = 1" using Suc.prems r by auto
  from Suc.IH[OF this] have "n \<le> sum_list rs" .
  ultimately show ?case using r by simp
qed

lemma find_unread_None:
  "find_unread (enumerate_list pl) readed = Inr None \<Longrightarrow> length pl \<le> sum_list readed"
  using find_unread_None_prefix[of 0 pl readed] sum_list_ones[of "length pl" readed]
  by (auto simp: enumerate_list_def)

text \<open>
  The \<open>while sum(readed) < len(...)\<close> loop for one generation; the state is
  (readed, seg_num, seg_dic[k], find_flag).
\<close>

function segments_loop :: "point_pair list \<Rightarrow> segment_state \<Rightarrow> error + segment_dict" where
  "segments_loop pl (readed, seg_num, segs, find_flag) =
     (if sum_list readed < length pl then
        (case (if find_flag \<noteq> 1 then seed_segment pl (readed, seg_num, segs)
               else Inr (readed, seg_num, segs)) of
           Inl e \<Rightarrow> Inl e
         | Inr (readed1, seg_num1, segs1) \<Rightarrow>
             (case find_extension (enumerate_list pl) readed1 segs1 seg_num1 of
                Inl e \<Rightarrow> Inl e
              | Inr None \<Rightarrow> segments_loop pl (readed1, seg_num1, segs1, 0)
              | Inr (Some (i, pp, at_tail)) \<Rightarrow>
                  (case dict_get segs1 seg_num1 of
                     Inl e \<Rightarrow> Inl e
                   | Inr cur \<Rightarrow>
                       segments_loop pl
                         (readed1[i := 1], seg_num1,
                          dict_set segs1 seg_num1 (if at_tail then cur @ [pp] else pp # cur), 1))))
      else Inr segs)"
  by pat_completeness auto
termination
proof (relation "measure (\<lambda>(pl, readed, seg_num, segs, find_flag).
          2 * unread readed + (if find_flag = 1 then 1 else 0))", goal_cases)
  case 1
  then show ?case by simp
next
  case (2 pl readed seg_num segs find_flag x2 readed1 y seg_num1 segs1)
  then show ?case
    using find_unread_None[of pl readed]
    by (auto simp: seed_segment_def split: if_splits sum.splits option.splits dest!: find_unread_Some unread_update)
next
  case (3 pl readed seg_num segs find_flag x2 readed1 y seg_num1 segs1 x2a x2b i ya pp at_tail cur)
  then show ?case
    using find_unread_None[of pl readed]
    by (auto simp: seed_segment_def split: if_splits sum.splits option.splits dest!: find_extension_Some find_unread_Some unread_update)
qed

declare segments_loop.simps [simp del]

text \<open>
  \<open>_get_all_segments\<close>: the generations in the order of the dict, each with its segments.
\<close>

fun get_all_segments :: "pair_dict \<Rightarrow> error + seg_dict" where
  "get_all_segments [] = Inr []"
| "get_all_segments ((k, pl) # rest) =
     (case segments_loop pl (replicate (length pl) 0, 0, [], 0) of
        Inl e \<Rightarrow> Inl e
      | Inr segs \<Rightarrow>
          (case get_all_segments rest of
             Inl e \<Rightarrow> Inl e
           | Inr seg_dic \<Rightarrow> Inr ((k, segs) # seg_dic)))"

text \<open>
  \<open>label_vessel_grades\<close>: \<open>None\<close> when the traversal does not return, \<open>Inl\<close> an
  exception, \<open>Inr\<close> the grades array and the segment dict.
\<close>

definition label_vessel_grades :: "shape \<Rightarrow> (vox \<Rightarrow> int) \<Rightarrow> vox \<Rightarrow> (error + grades \<times> seg_dict) option" where
  "label_vessel_grades sh vessel_data start_point =
     (case np_index3 sh start_point of
        None \<Rightarrow> Some (Inl IndexError)
      | Some s \<Rightarrow>
          (case label_loop sh vessel_data ((\<lambda>v. 0)(s := 1), [(start_point, 1, (-1, -1, -1))], []) of
             None \<Rightarrow> None
           | Some (grades, queue, plp) \<Rightarrow>
               (case get_all_segments plp of
                  Inl e \<Rightarrow> Some (Inl e)
                | Inr seg_dic \<Rightarrow> Some (Inr (grades, seg_dic)))))"

subsection \<open>Building the raw tree\<close>

type_synonym find_dad = "nat list list"

definition fd_get :: "find_dad \<Rightarrow> nat \<Rightarrow> nat \<Rightarrow> error + nat" where
  "fd_get fd i j = (case item fd i of Inl e \<Rightarrow> Inl e | Inr row \<Rightarrow> item row j)"

definition fd_set :: "find_dad \<Rightarrow> nat \<Rightarrow> nat \<Rightarrow> nat \<Rightarrow> find_dad" where
  "fd_set fd i j v = fd[i := (fd ! i)[j := v]]"

text \<open>
  The three nested loops of \<open>build_tree_structure\<close> run over the segment dict and the node's
  line, neither of which the body changes: their iterations, in order, are the list
  \<open>build_work\<close> of (generation, ordinal, segment, index, point).
\<close>

type_synonym work_item = "nat \<times> nat \<times> point_pair list \<times> nat \<times> point_pair"

definition build_work :: "seg_dict \<Rightarrow> point_pair list \<Rightarrow> work_item list" where
  "build_work seg_dic ln =
     concat (map (\<lambda>(i, segs).
       concat (map (\<lambda>(j, seg). map (\<lambda>(k, point). (i, j, seg, k, point)) (enumerate_list ln)) segs))
       seg_dic)"

text \<open>
  The condition of the \<open>if\<close>. Every exception raised while it is evaluated (the last pair of
  an empty segment, a \<open>find_dad\<close> index out of range) is caught by the \<open>except\<close> around it, which
  prints and goes on with the next iteration: the condition then counts as false.
\<close>

definition attaches :: "find_dad \<Rightarrow> work_item \<Rightarrow> bool" where
  "attaches fd w =
     (case w of (i, j, seg, k, point) \<Rightarrow>
        seg \<noteq> [] \<and> snd (last seg) = fst point \<and> fd_get fd i j = Inr 0)"

definition zeros :: "find_dad \<Rightarrow> nat" where
  "zeros fd = sum_list (map (\<lambda>row. length (filter (\<lambda>x. x = 0) row)) fd)"

function build_loop :: "tree \<Rightarrow> int \<Rightarrow> seg_dict \<Rightarrow> find_dad \<Rightarrow> work_item list \<Rightarrow> tree \<times> find_dad" where
  "build_loop blood_tree lyr seg_dic fd [] = (blood_tree, fd)"
| "build_loop blood_tree lyr seg_dic fd ((i, j, seg, k, point) # rest) =
     (if attaches fd (i, j, seg, k, point) then
        (case build_loop (Node seg [] [] [] [] lyr) (lyr + 1) seg_dic (fd_set fd i j 1)
                (build_work seg_dic seg) of
           (new_tree, fd') \<Rightarrow>
             build_loop
               (Node (line blood_tree) (subtree blood_tree @ [new_tree]) (deep blood_tree)
                  (subLength blood_tree) (dividePointIndex blood_tree @ [int k]) (layer blood_tree))
               lyr seg_dic fd' rest)
      else build_loop blood_tree lyr seg_dic fd rest)"
  by pat_completeness auto

lemma count_zero_update:
  "j < length row \<Longrightarrow> row ! j = 0 \<Longrightarrow>
   Suc (length (filter (\<lambda>x. x = 0) (row[j := 1::nat]))) = length (filter (\<lambda>x. x = 0) row)"
proof (induction row arbitrary: j)
  case Nil
  then show ?case by simp
next
  case (Cons r row)
  then show ?case by (cases j) auto
qed

lemma zeros_fd_set:
  assumes "fd_get fd i j = Inr 0"
  shows "Suc (zeros (fd_set fd i j 1)) = zeros fd"
proof -
  from assms have i: "i < length fd" and j: "j < length (fd ! i)" and z: "fd ! i ! j = 0"
    by (auto simp: fd_get_def item_def split: if_splits sum.splits)
  let ?f = "\<lambda>row. length (filter (\<lambda>x. x = (0::nat)) row)"
  have row: "Suc (?f ((fd ! i)[j := 1])) = ?f (fd ! i)"
    using j z by (rule count_zero_update)
  have "map ?f (fd[i := (fd ! i)[j := 1]]) = (map ?f fd)[i := ?f ((fd ! i)[j := 1])]"
    by (simp add: map_update)
  then have "zeros (fd_set fd i j 1) = sum_list (map ?f fd) + ?f ((fd ! i)[j := 1]) - (map ?f fd) ! i"
    using i by (simp add: zeros_def fd_set_def sum_list_update)
  moreover have "(map ?f fd) ! i \<le> sum_list (map ?f fd)"
    using i by (intro member_le_sum_list) (auto simp del: length_filter_le)
  ultimately show ?thesis using row i by (simp add: zeros_def)
qed

lemma build_loop_zeros:
  assumes "build_loop_dom (t, lyr, seg_dic, fd, ws)"
  shows "zeros (snd (build_loop t lyr seg_dic fd ws)) \<le> zeros fd"
  using assms
proof (induction t lyr seg_dic fd ws rule: build_loop.pinduct)
  case (1 blood_tree lyr seg_dic fd)
  then show ?case by (simp add: build_loop.psimps)
next
  case (2 blood_tree lyr seg_dic fd i j seg k point rest)
  show ?case
  proof (cases "attaches fd (i, j, seg, k, point)")
    case True
    obtain new_tree fd' where inner:
      "build_loop (Node seg [] [] [] [] lyr) (lyr + 1) seg_dic (fd_set fd i j 1) (build_work seg_dic seg)
       = (new_tree, fd')" by (cases "build_loop (Node seg [] [] [] [] lyr) (lyr + 1) seg_dic (fd_set fd i j 1) (build_work seg_dic seg)")
    from "2.IH"(1)[OF True] inner have a: "zeros fd' \<le> zeros (fd_set fd i j 1)" by simp
    from "2.IH"(2)[OF True inner[symmetric]]
    have b: "zeros (snd (build_loop
               (Node (line blood_tree) (subtree blood_tree @ [new_tree]) (deep blood_tree)
                  (subLength blood_tree) (dividePointIndex blood_tree @ [int k]) (layer blood_tree))
               lyr seg_dic fd' rest)) \<le> zeros fd'" .
    from True have "fd_get fd i j = Inr 0" by (simp add: attaches_def)
    from zeros_fd_set[OF this] a b True inner show ?thesis
      by (simp add: build_loop.psimps(2)[OF "2.hyps"])
  next
    case False
    with "2.IH"(3) show ?thesis by (simp add: build_loop.psimps(2)[OF "2.hyps"])
  qed
qed

termination build_loop
proof (relation "(\<lambda>(t, lyr, seg_dic, fd, ws). zeros fd) <*mlex*> measure (\<lambda>(t, lyr, seg_dic, fd, ws). length ws)",
    goal_cases)
  case 1
  then show ?case by (simp add: wf_mlex)
next
  case (2 blood_tree lyr seg_dic fd i j seg k point rest)
  then have "fd_get fd i j = Inr 0" by (simp add: attaches_def)
  from zeros_fd_set[OF this] show ?case by (auto intro!: mlex_less)
next
  case (3 blood_tree lyr seg_dic fd i j seg k point rest new_tree fd')
  from build_loop_zeros[OF 3(3)] 3(2)[symmetric] have "zeros fd' \<le> zeros (fd_set fd i j 1)" by simp
  moreover from 3(1) have "fd_get fd i j = Inr 0" by (simp add: attaches_def)
  from zeros_fd_set[OF this] have "zeros (fd_set fd i j 1) < zeros fd" by simp
  ultimately show ?case by (auto intro!: mlex_less)
next
  case (4 blood_tree lyr seg_dic fd i j seg k point rest)
  then show ?case by (auto intro!: mlex_leq)
qed

declare build_loop.simps [simp del]

definition build_tree_structure :: "tree \<Rightarrow> int \<Rightarrow> seg_dict \<Rightarrow> find_dad \<Rightarrow> tree \<times> find_dad" where
  "build_tree_structure blood_tree lyr seg_dic fd =
     build_loop blood_tree lyr seg_dic fd (build_work seg_dic (line blood_tree))"

subsection \<open>From a skeleton to the canonical tree\<close>

definition sq_dist :: "vox \<Rightarrow> vox \<Rightarrow> int" where
  "sq_dist c v =
     (case c of (cx, cy, cz) \<Rightarrow> case v of (x, y, z) \<Rightarrow>
        (cx - x) * (cx - x) + (cy - y) * (cy - y) + (cz - z) * (cz - z))"

fun argmin_from :: "int list \<Rightarrow> nat \<Rightarrow> int \<Rightarrow> nat \<Rightarrow> nat" where
  "argmin_from [] i best besti = besti"
| "argmin_from (x # xs) i best besti =
     (if x < best then argmin_from xs (Suc i) x i else argmin_from xs (Suc i) best besti)"

definition argmin :: "int list \<Rightarrow> error + nat" where
  "argmin xs = (case xs of [] \<Rightarrow> Inl ValueError | x # rest \<Rightarrow> Inr (argmin_from rest 1 x 0))"

fun those_indices :: "shape \<Rightarrow> vox list \<Rightarrow> error + vox list" where
  "those_indices sh [] = Inr []"
| "those_indices sh (v # vs) =
     (case np_index3 sh v of
        None \<Rightarrow> Inl IndexError
      | Some v' \<Rightarrow> (case those_indices sh vs of Inl e \<Rightarrow> Inl e | Inr vs' \<Rightarrow> Inr (v' # vs')))"

definition skeleton_mask :: "vox list \<Rightarrow> vox \<Rightarrow> int" where
  "skeleton_mask cs v = (if v \<in> set cs then 1 else 0)"

text \<open>
  \<open>get_tree_from_region\<close>, with the skeleton given by its coordinate list and the centre by
  integer coordinates. \<open>np.argmin\<close> and \<open>max\<close> raise \<open>ValueError\<close> on an empty sequence.
\<close>

definition get_tree_from_region :: "shape \<Rightarrow> vox \<Rightarrow> vox list \<Rightarrow> (error + tree) option" where
  "get_tree_from_region sh center_middle sk_coords =
     (case argmin (map (sq_dist center_middle) sk_coords) of
        Inl e \<Rightarrow> Some (Inl e)
      | Inr most_recent \<Rightarrow>
          (case those_indices sh sk_coords of
             Inl e \<Rightarrow> Some (Inl e)
           | Inr cs \<Rightarrow>
               (case label_vessel_grades sh (skeleton_mask cs) (sk_coords ! most_recent) of
                  None \<Rightarrow> None
                | Some (Inl e) \<Rightarrow> Some (Inl e)
                | Some (Inr (grades, seg_dic)) \<Rightarrow>
                    if seg_dic = [] then Some (Inl ValueError)
                    else
                      (case build_tree_structure
                              (Node [(sk_coords ! most_recent, (0, 0, 0))] [] [] [] [] 0) 0 seg_dic
                              (replicate (length seg_dic + 3)
                                 (replicate (nat (max_list (map (\<lambda>(k, segs). py_len segs) seg_dic)) + 3) 0)) of
                         (blood_tree, fd) \<Rightarrow>
                           (case assign_depth blood_tree of
                              Inl e \<Rightarrow> Some (Inl e)
                            | Inr (annotated, d, l) \<Rightarrow> Some (create_new_tree_from_old annotated))))))"

section \<open>Notions the properties are stated with\<close>

text \<open>
  The voxel counts of all root-to-leaf paths of a raw tree, enumerated exhaustively: down a
  path every inner node contributes the points of its line from the divide index of the child
  that is followed to the end, and the leaf contributes its whole line.
\<close>

function path_counts :: "tree \<Rightarrow> int list" where
  "path_counts (Node ln subs dp sl dpi ly) =
     (if subs = [] then [py_len ln]
      else concat (map (\<lambda>(s, d). map (\<lambda>c. c + py_len (slice_from ln d)) (path_counts s))
                       (zip subs dpi)))"
  by pat_completeness auto
termination
proof (relation "measure size")
  show "wf (measure size)" by simp
next
  fix ln :: "point_pair list" and subs :: "tree list" and dp sl dpi :: "int list" and ly :: int
    and x :: "tree \<times> int" and s :: tree and d :: int
  assume "x \<in> set (zip subs dpi)" "(s, d) = x"
  then have "s \<in> set subs" by (auto dest: set_zip_leftD)
  then have "size s \<le> size_list size subs" by (simp add: size_list_estimation')
  then show "(s, Node ln subs dp sl dpi ly) \<in> measure size" by simp
qed

definition max_path_count :: "tree \<Rightarrow> int" where
  "max_path_count t = max_list (path_counts t)"

text \<open>Every node of a tree satisfies \<open>P\<close>.\<close>

fun all_nodes :: "(tree \<Rightarrow> bool) \<Rightarrow> tree \<Rightarrow> bool" where
  "all_nodes P (Node ln subs dp sl dpi ly) =
     (P (Node ln subs dp sl dpi ly) \<and> list_all (all_nodes P) subs)"

text \<open>
  A raw tree as the tree builder leaves it: every node holds a non-empty segment, one divide
  index per child, each an index into the node's own line, and no annotation yet.
\<close>

fun raw_tree :: "tree \<Rightarrow> bool" where
  "raw_tree (Node ln subs dp sl dpi ly) =
     (ln \<noteq> [] \<and> dp = [] \<and> sl = [] \<and> length dpi = length subs
      \<and> list_all (\<lambda>d. 0 \<le> d \<and> d < py_len ln) dpi \<and> list_all raw_tree subs)"

subsection \<open>Example trees\<close>

definition pt :: "int \<Rightarrow> point_pair" where
  "pt n = ((n, 0, 0), (n - 1, 0, 0))"

definition leaf :: "int list \<Rightarrow> tree" where
  "leaf ns = Node (map pt ns) [] [] [] [] 1"

text \<open>
  A ten-point segment with a five-point branch leaving at its last point (index 9) and a
  four-point branch leaving at its first point (index 0).
\<close>

definition trunk_two_branches :: tree where
  "trunk_two_branches =
     Node (map pt [10, 9, 8, 7, 6, 5, 4, 3, 2, 1])
       [leaf [25, 24, 23, 22, 21], leaf [34, 33, 32, 31]] [] [] [9, 0] 0"

definition trunk_two_branches_annotated :: tree where
  "trunk_two_branches_annotated =
     Node (map pt [10, 9, 8, 7, 6, 5, 4, 3, 2, 1])
       [leaf [25, 24, 23, 22, 21], leaf [34, 33, 32, 31]] [1, 1] [5, 4] [9, 0] 0"

text \<open>A two-point segment with one single-point branch, before and after annotation.\<close>

definition one_branch :: tree where
  "one_branch = Node [pt 2, pt 1] [leaf [3]] [] [] [0] 0"

definition one_branch_annotated :: tree where
  "one_branch_annotated = Node [pt 2, pt 1] [leaf [3]] [1] [1] [0] 0"

definition one_branch_canonical :: tree where
  "one_branch_canonical = Node [pt 3, pt 2, pt 1] [] [] [] [] 0"

text \<open>
  A node with two single-point branches leaving at its only point, before and after
  annotation, and its canonical tree.
\<close>

definition fork :: tree where
  "fork = Node [pt 1] [leaf [2], leaf [3]] [] [] [0, 0] 0"

definition fork_canonical :: tree where
  "fork_canonical = Node [pt 2, pt 1] [Node [pt 3] [] [] [] [] 0] [] [] [1] 0"

definition fork_canonical_annotated :: tree where
  "fork_canonical_annotated = Node [pt 2, pt 1] [Node [pt 3] [] [] [] [] 0] [1] [1] [1] 0"

definition fork_annotated :: tree where
  "fork_annotated = Node [pt 1] [leaf [2], leaf [3]] [1, 1] [1, 1] [0, 0] 0"

subsection \<open>Annotated trees\<close>

text \<open>
  The number of points of the line \<open>find_longest_line\<close> returns, and the trees whose
  \<open>subLength\<close> lists hold that number for every child: the state in which annotation leaves a
  raw tree, and in which the synthetic nodes of \<open>find_small_branches\<close> are built.
\<close>

definition backbone_len :: "tree \<Rightarrow> int" where
  "backbone_len t = (case find_longest_line t of Inl e \<Rightarrow> 0 | Inr ln \<Rightarrow> py_len ln)"

fun annotated :: "tree \<Rightarrow> bool" where
  "annotated (Node ln subs dp sl dpi ly) =
     (ln \<noteq> [] \<and> length dpi = length subs
      \<and> list_all (\<lambda>d. 0 \<le> d \<and> d < py_len ln) dpi
      \<and> sl = map backbone_len subs \<and> list_all annotated subs)"

definition valid_divide_indices :: "tree \<Rightarrow> bool" where
  "valid_divide_indices n = list_all (\<lambda>d. 0 \<le> d \<and> d < py_len (line n)) (dividePointIndex n)"

text \<open>The four parallel lists of a node have one entry per child.\<close>

definition equal_lengths :: "tree \<Rightarrow> bool" where
  "equal_lengths n =
     (length (dividePointIndex n) = length (subtree n)
      \<and> length (subLength n) = length (subtree n)
      \<and> length (deep n) = length (subtree n))"

subsection \<open>Notions for the labeller\<close>

text \<open>
  26-connectivity: two different voxels whose coordinates differ by at most one each. The
  voxels reachable from the root are the root and every set voxel of the grid adjacent to a
  reachable one.
\<close>

definition adjacent26 :: "vox \<Rightarrow> vox \<Rightarrow> bool" where
  "adjacent26 p q =
     (case p of (x, y, z) \<Rightarrow> case q of (x', y', z') \<Rightarrow>
        p \<noteq> q \<and> \<bar>x - x'\<bar> \<le> 1 \<and> \<bar>y - y'\<bar> \<le> 1 \<and> \<bar>z - z'\<bar> \<le> 1)"

inductive_set reachable :: "shape \<Rightarrow> (vox \<Rightarrow> int) \<Rightarrow> vox \<Rightarrow> vox set"
  for sh :: shape and vessel_data :: "vox \<Rightarrow> int" and root :: vox where
  root: "root \<in> reachable sh vessel_data root"
| step: "p \<in> reachable sh vessel_data root \<Longrightarrow> adjacent26 p q \<Longrightarrow> in_bounds sh q \<Longrightarrow>
         vessel_data q = 1 \<Longrightarrow> q \<in> reachable sh vessel_data root"

text \<open>All pairs of all segments of a segment dict, and their points.\<close>

definition segment_pairs :: "seg_dict \<Rightarrow> point_pair list" where
  "segment_pairs seg_dic = concat (map (\<lambda>(k, segs). concat (map snd segs)) seg_dic)"

definition segment_points :: "seg_dict \<Rightarrow> vox list" where
  "segment_points seg_dic = map fst (segment_pairs seg_dic)"

text \<open>
  The neighbour of a voxel in a direction, and the neighbours the loop over \<open>directions\<close>
  finds unvisited and qualifying, in enumeration order.
\<close>

definition neighbour :: "vox \<Rightarrow> vox \<Rightarrow> vox" where
  "neighbour v dir = (case v of (x, y, z) \<Rightarrow> case dir of (dx, dy, dz) \<Rightarrow> (x + dx, y + dy, z + dz))"

definition is_fresh :: "shape \<Rightarrow> (vox \<Rightarrow> int) \<Rightarrow> grades \<Rightarrow> vox \<Rightarrow> bool" where
  "is_fresh sh vessel_data grades n = (in_bounds sh n \<and> vessel_data n = 1 \<and> grades n = 0)"

definition fresh_neighbours :: "shape \<Rightarrow> (vox \<Rightarrow> int) \<Rightarrow> grades \<Rightarrow> vox \<Rightarrow> vox list" where
  "fresh_neighbours sh vessel_data grades v =
     filter (is_fresh sh vessel_data grades) (map (neighbour v) directions)"

text \<open>A grid of two voxels in which only the second is set.\<close>

definition two_voxels :: "vox \<Rightarrow> int" where
  "two_voxels = skeleton_mask [(1, 0, 0)]"

subsection \<open>Notions for the tree builder\<close>

text \<open>
  The points of the lines of all nodes of a tree, the lines of its nodes, and the segments of
  a segment dict with their generation and ordinal.
\<close>

fun tree_points :: "tree \<Rightarrow> vox set" where
  "tree_points (Node ln subs dp sl dpi ly) = fst ` set ln \<union> (\<Union>s\<in>set subs. tree_points s)"






subsection \<open>A Y-shaped skeleton\<close>

text \<open>
  A Y in the plane \<open>z = 0\<close> of a grid of shape \<open>(10, 11, 1)\<close>: a trunk of five voxels from
  \<open>(0, 5, 0)\<close> to \<open>(4, 5, 0)\<close> and two arms of five voxels each, from \<open>(5, 4, 0)\<close> to
  \<open>(9, 0, 0)\<close> and from \<open>(5, 6, 0)\<close> to \<open>(9, 10, 0)\<close>; then the pairs the traversal records
  from the free trunk end, the segments, the raw tree, the annotated tree and the canonical
  tree.
\<close>

definition y_skeleton :: "vox list" where
  "y_skeleton = [(0, 5, 0), (1, 5, 0), (2, 5, 0), (3, 5, 0), (4, 5, 0),
                 (5, 4, 0), (6, 3, 0), (7, 2, 0), (8, 1, 0), (9, 0, 0),
                 (5, 6, 0), (6, 7, 0), (7, 8, 0), (8, 9, 0), (9, 10, 0)]"

definition y_pairs :: pair_dict where
  "y_pairs =
  [(1, [((1, 5, 0), 0, 5, 0), ((2, 5, 0), 1, 5, 0), ((3, 5, 0), 2, 5, 0),
        ((4, 5, 0), 3, 5, 0), ((5, 4, 0), 4, 5, 0), ((6, 3, 0), 5, 4, 0),
        ((7, 2, 0), 6, 3, 0), ((8, 1, 0), 7, 2, 0), ((9, 0, 0), 8, 1, 0)]),
   (2, [((5, 6, 0), 4, 5, 0), ((6, 7, 0), 5, 6, 0), ((7, 8, 0), 6, 7, 0),
        ((8, 9, 0), 7, 8, 0), ((9, 10, 0), 8, 9, 0)])]"

definition y_segments :: seg_dict where
  "y_segments =
    [(1, [(1, [((9, 0, 0), 8, 1, 0), ((8, 1, 0), 7, 2, 0),
                  ((7, 2, 0), 6, 3, 0), ((6, 3, 0), 5, 4, 0),
                  ((5, 4, 0), 4, 5, 0), ((4, 5, 0), 3, 5, 0),
                  ((3, 5, 0), 2, 5, 0), ((2, 5, 0), 1, 5, 0),
                  ((1, 5, 0), 0, 5, 0)])]),
        (2, [(1, [((9, 10, 0), 8, 9, 0), ((8, 9, 0), 7, 8, 0),
                  ((7, 8, 0), 6, 7, 0), ((6, 7, 0), 5, 6, 0),
                  ((5, 6, 0), 4, 5, 0)])])]"

definition y_raw :: tree where
  "y_raw = Node [((0, 5, 0), 0, 0, 0)]
   [Node
     [((9, 0, 0), 8, 1, 0), ((8, 1, 0), 7, 2, 0), ((7, 2, 0), 6, 3, 0),
      ((6, 3, 0), 5, 4, 0), ((5, 4, 0), 4, 5, 0), ((4, 5, 0), 3, 5, 0),
      ((3, 5, 0), 2, 5, 0), ((2, 5, 0), 1, 5, 0), ((1, 5, 0), 0, 5, 0)]
     [Node
       [((9, 10, 0), 8, 9, 0), ((8, 9, 0), 7, 8, 0), ((7, 8, 0), 6, 7, 0),
        ((6, 7, 0), 5, 6, 0), ((5, 6, 0), 4, 5, 0)]
       [] [] [] [] 1]
     [] [] [5] 0]
   [] [] [0] 0"

definition y_annotated :: tree where
  "y_annotated = Node [((0, 5, 0), 0, 0, 0)]
       [Node
         [((9, 0, 0), 8, 1, 0), ((8, 1, 0), 7, 2, 0), ((7, 2, 0), 6, 3, 0),
          ((6, 3, 0), 5, 4, 0), ((5, 4, 0), 4, 5, 0), ((4, 5, 0), 3, 5, 0),
          ((3, 5, 0), 2, 5, 0), ((2, 5, 0), 1, 5, 0), ((1, 5, 0), 0, 5, 0)]
         [Node
           [((9, 10, 0), 8, 9, 0), ((8, 9, 0), 7, 8, 0),
            ((7, 8, 0), 6, 7, 0), ((6, 7, 0), 5, 6, 0),
            ((5, 6, 0), 4, 5, 0)]
           [] [] [] [] 1]
         [1] [5] [5] 0]
       [2] [9] [0] 0"

definition y_canonical :: tree where
  "y_canonical = Node
         [((9, 10, 0), 8, 9, 0), ((8, 9, 0), 7, 8, 0), ((7, 8, 0), 6, 7, 0),
          ((6, 7, 0), 5, 6, 0), ((5, 6, 0), 4, 5, 0), ((4, 5, 0), 3, 5, 0),
          ((3, 5, 0), 2, 5, 0), ((2, 5, 0), 1, 5, 0), ((1, 5, 0), 0, 5, 0),
          ((0, 5, 0), 0, 0, 0)]
         [Node
           [((9, 0, 0), 8, 1, 0), ((8, 1, 0), 7, 2, 0),
            ((7, 2, 0), 6, 3, 0), ((6, 3, 0), 5, 4, 0),
            ((5, 4, 0), 4, 5, 0)]
           [] [] [] [] 0]
         [] [] [5] 0"

section \<open>Lemmas on annotation and canonicalisation\<close>

lemma argmax_from_props:
  assumes "besti < i" "i = length pre" "best = (pre @ xs) ! besti"
    "\<forall>j<i. (pre @ xs) ! j \<le> best" "\<forall>j<besti. (pre @ xs) ! j < best"
  shows "argmax_from xs i best besti < length (pre @ xs)
     \<and> (\<forall>j<length (pre @ xs). (pre @ xs) ! j \<le> (pre @ xs) ! argmax_from xs i best besti)
     \<and> (\<forall>j<argmax_from xs i best besti. (pre @ xs) ! j < (pre @ xs) ! argmax_from xs i best besti)"
  using assms
proof (induction xs arbitrary: i best besti pre)
  case Nil
  then show ?case by simp
next
  case (Cons x xs)
  have split: "pre @ x # xs = (pre @ [x]) @ xs" by simp
  show ?case
  proof (cases "best < x")
    case True
    have "argmax_from xs (Suc i) x i < length ((pre @ [x]) @ xs)
     \<and> (\<forall>j<length ((pre @ [x]) @ xs). ((pre @ [x]) @ xs) ! j \<le> ((pre @ [x]) @ xs) ! argmax_from xs (Suc i) x i)
     \<and> (\<forall>j<argmax_from xs (Suc i) x i. ((pre @ [x]) @ xs) ! j < ((pre @ [x]) @ xs) ! argmax_from xs (Suc i) x i)"
    proof (rule Cons.IH)
      show "i < Suc i" by simp
      show "Suc i = length (pre @ [x])" using Cons.prems(2) by simp
      show "x = ((pre @ [x]) @ xs) ! i" using Cons.prems(2) by (simp add: nth_append)
      show "\<forall>j<Suc i. ((pre @ [x]) @ xs) ! j \<le> x"
        using Cons.prems(2,4) True unfolding split[symmetric]
        by (auto simp: less_Suc_eq nth_append)
      show "\<forall>j<i. ((pre @ [x]) @ xs) ! j < x"
        using Cons.prems(2,4) True unfolding split[symmetric]
        by (auto simp: nth_append)
    qed
    with True show ?thesis unfolding split[symmetric] by simp
  next
    case False
    have "argmax_from xs (Suc i) best besti < length ((pre @ [x]) @ xs)
     \<and> (\<forall>j<length ((pre @ [x]) @ xs). ((pre @ [x]) @ xs) ! j \<le> ((pre @ [x]) @ xs) ! argmax_from xs (Suc i) best besti)
     \<and> (\<forall>j<argmax_from xs (Suc i) best besti. ((pre @ [x]) @ xs) ! j < ((pre @ [x]) @ xs) ! argmax_from xs (Suc i) best besti)"
    proof (rule Cons.IH)
      show "besti < Suc i" using Cons.prems(1) by simp
      show "Suc i = length (pre @ [x])" using Cons.prems(2) by simp
      show "best = ((pre @ [x]) @ xs) ! besti" using Cons.prems(3) by simp
      show "\<forall>j<Suc i. ((pre @ [x]) @ xs) ! j \<le> best"
        using Cons.prems(2,4) False unfolding split[symmetric]
        by (auto simp: less_Suc_eq nth_append)
      show "\<forall>j<besti. ((pre @ [x]) @ xs) ! j < best"
        using Cons.prems(5) by simp
    qed
    with False show ?thesis unfolding split[symmetric] by simp
  qed
qed

lemma argmax_props:
  assumes "xs \<noteq> []"
  shows "\<exists>m. argmax xs = Inr m \<and> m < length xs \<and> (\<forall>j<length xs. xs ! j \<le> xs ! m)
           \<and> (\<forall>j<m. xs ! j < xs ! m)"
proof -
  from assms obtain x rest where xs: "xs = x # rest" by (cases xs) auto
  from argmax_from_props[of 0 1 "[x]" x rest] show ?thesis
    by (simp add: xs argmax_def)
qed

lemma first_max_unique:
  fixes xs :: "int list"
  assumes "m < length xs" "\<forall>j<length xs. xs ! j \<le> xs ! m" "\<forall>j<m. xs ! j < xs ! m"
    and "m' < length xs" "\<forall>j<length xs. xs ! j \<le> xs ! m'" "\<forall>j<m'. xs ! j < xs ! m'"
  shows "m = (m'::nat)"
proof (rule ccontr)
  assume "m \<noteq> m'"
  then consider "m < m'" | "m' < m" by linarith
  then show False
  proof cases
    case 1
    with assms(6) have "xs ! m < xs ! m'" by simp
    moreover from assms(2,4) have "xs ! m' \<le> xs ! m" by simp
    ultimately show False by simp
  next
    case 2
    with assms(3) have "xs ! m' < xs ! m" by simp
    moreover from assms(5,1) have "xs ! m \<le> xs ! m'" by simp
    ultimately show False by simp
  qed
qed

lemma annotated_iff:
  "annotated t = (line t \<noteq> [] \<and> length (dividePointIndex t) = length (subtree t)
      \<and> (\<forall>d\<in>set (dividePointIndex t). 0 \<le> d \<and> d < py_len (line t))
      \<and> subLength t = map backbone_len (subtree t) \<and> (\<forall>s\<in>set (subtree t). annotated s))"
  by (cases t) (simp add: list_all_iff)

lemma find_longest_line_leaf: "subtree t = [] \<Longrightarrow> find_longest_line t = Inr (line t)"
  by (simp add: find_longest_line.simps[of t])

lemma find_longest_line_annotated:
  "annotated t \<Longrightarrow> \<exists>ln. find_longest_line t = Inr ln \<and> ln \<noteq> []
     \<and> (subtree t \<noteq> [] \<longrightarrow> (\<exists>m rest. argmax (subLength t) = Inr m \<and> m < length (subtree t)
            \<and> find_longest_line (subtree t ! m) = Inr rest
            \<and> ln = rest @ drop (nat (dividePointIndex t ! m)) (line t)))"
proof (induction t rule: find_longest_line.induct)
  case (1 t)
  note ann = "1.prems"[unfolded annotated_iff[of t]]
  show ?case
  proof (cases "subtree t = []")
    case True
    with ann show ?thesis by (simp add: find_longest_line_leaf)
  next
    case False
    with ann have "subLength t \<noteq> []" by auto
    from argmax_props[OF this] obtain m where m: "argmax (subLength t) = Inr m" "m < length (subLength t)"
      by blast
    with ann have mlt: "m < length (subtree t)" "m < length (dividePointIndex t)" by auto
    then have it: "item (subtree t) m = Inr (subtree t ! m)" "item (dividePointIndex t) m = Inr (dividePointIndex t ! m)"
      by (simp_all add: item_def)
    from mlt ann have "annotated (subtree t ! m)" by auto
    from "1.IH"[OF _ m(1) it(1) this] ann False obtain rest where
      rest: "find_longest_line (subtree t ! m) = Inr rest" "rest \<noteq> []" by auto
    from mlt ann have "0 \<le> dividePointIndex t ! m" by auto
    then have "slice_from (line t) (dividePointIndex t ! m) = drop (nat (dividePointIndex t ! m)) (line t)"
      by (simp add: slice_from_def)
    with False ann m it rest mlt show ?thesis
      by (simp add: find_longest_line.simps[of t])
  qed
qed

lemma backbone_len_annotated:
  assumes "annotated t"
  shows "1 \<le> backbone_len t"
    and "subtree t = [] \<Longrightarrow> backbone_len t = py_len (line t)"
    and "subtree t \<noteq> [] \<Longrightarrow> \<exists>m. argmax (subLength t) = Inr m \<and> m < length (subtree t)
            \<and> backbone_len t = subLength t ! m + py_len (line t) - dividePointIndex t ! m"
proof -
  note ann = assms[unfolded annotated_iff[of t]]
  from find_longest_line_annotated[OF assms] obtain ln where
    ln: "find_longest_line t = Inr ln" "ln \<noteq> []"
    and sub: "subtree t \<noteq> [] \<longrightarrow> (\<exists>m rest. argmax (subLength t) = Inr m \<and> m < length (subtree t)
            \<and> find_longest_line (subtree t ! m) = Inr rest
            \<and> ln = rest @ drop (nat (dividePointIndex t ! m)) (line t))"
    by blast
  from ln show "1 \<le> backbone_len t"
    by (cases ln) (simp_all add: backbone_len_def py_len_def)
  show "backbone_len t = py_len (line t)" if "subtree t = []"
    using that by (simp add: backbone_len_def find_longest_line_leaf)
  show "\<exists>m. argmax (subLength t) = Inr m \<and> m < length (subtree t)
            \<and> backbone_len t = subLength t ! m + py_len (line t) - dividePointIndex t ! m"
    if "subtree t \<noteq> []"
  proof -
    from sub that obtain m rest where m: "argmax (subLength t) = Inr m" "m < length (subtree t)"
      "find_longest_line (subtree t ! m) = Inr rest"
      "ln = rest @ drop (nat (dividePointIndex t ! m)) (line t)" by blast
    from m(2) ann have d: "0 \<le> dividePointIndex t ! m" "dividePointIndex t ! m < py_len (line t)"
      by auto
    from m(2) ann have "subLength t ! m = backbone_len (subtree t ! m)" by simp
    with m(3) have "subLength t ! m = py_len rest" by (simp add: backbone_len_def)
    with ln(1) m(4) d have "backbone_len t = subLength t ! m + py_len (line t) - dividePointIndex t ! m"
      by (simp add: backbone_len_def py_len_def)
    with m show ?thesis by blast
  qed
qed

lemma collect_siblings_Inr:
  "\<forall>e\<in>set es. fst e < length (subtree t) \<Longrightarrow>
   collect_siblings t m sl_max d_max es bs =
     Inr (bs @ map (\<lambda>e. (subtree t ! fst e, sl_max + snd e - d_max)) (filter (\<lambda>e. fst e \<noteq> m) es))"
proof (induction es arbitrary: bs)
  case Nil
  then show ?case by simp
next
  case (Cons a es)
  obtain i d where a: "a = (i, d)" by (cases a)
  with Cons.prems have "item (subtree t) i = Inr (subtree t ! i)" by (simp add: item_def)
  with Cons a show ?case by simp
qed

lemma split_siblings_Inr:
  "\<forall>e\<in>set es. fst e < length (subtree t) \<and> fst e < length (subLength t) \<Longrightarrow>
   split_siblings t m sl_max d_max es (nsub, ndpi, nsl, bs) =
     Inr (nsub @ map (\<lambda>e. subtree t ! fst e) (filter (\<lambda>e. snd e < d_max) es),
          ndpi @ map snd (filter (\<lambda>e. snd e < d_max) es),
          nsl @ map (\<lambda>e. subLength t ! fst e) (filter (\<lambda>e. snd e < d_max) es),
          bs @ map (\<lambda>e. (subtree t ! fst e, sl_max + snd e - d_max))
                 (filter (\<lambda>e. \<not> snd e < d_max \<and> fst e \<noteq> m) es))"
proof (induction es arbitrary: nsub ndpi nsl bs)
  case Nil
  then show ?case by simp
next
  case (Cons a es)
  obtain i d where a: "a = (i, d)" by (cases a)
  with Cons.prems have "item (subtree t) i = Inr (subtree t ! i)" "item (subLength t) i = Inr (subLength t ! i)"
    by (simp_all add: item_def)
  with Cons a show ?case by simp
qed

lemma set_enumerate_dpi:
  "e \<in> set (enumerate_dpi t) \<longleftrightarrow> fst e < length (dividePointIndex t) \<and> snd e = dividePointIndex t ! fst e"
proof (cases e)
  case (Pair i d)
  have "(i, d) \<in> set (zip [0..<length (dividePointIndex t)] (dividePointIndex t))
        \<longleftrightarrow> i < length (dividePointIndex t) \<and> d = dividePointIndex t ! i"
  proof
    assume "(i, d) \<in> set (zip [0..<length (dividePointIndex t)] (dividePointIndex t))"
    then obtain k where "[0..<length (dividePointIndex t)] ! k = i" "dividePointIndex t ! k = d"
      "k < length (dividePointIndex t)" by (auto simp: in_set_zip)
    then show "i < length (dividePointIndex t) \<and> d = dividePointIndex t ! i" by auto
  next
    assume a: "i < length (dividePointIndex t) \<and> d = dividePointIndex t ! i"
    then have "[0..<length (dividePointIndex t)] ! i = i \<and> dividePointIndex t ! i = d
       \<and> i < length [0..<length (dividePointIndex t)] \<and> i < length (dividePointIndex t)" by simp
    then show "(i, d) \<in> set (zip [0..<length (dividePointIndex t)] (dividePointIndex t))"
      unfolding in_set_zip by (intro exI[of _ i]) simp
  qed
  with Pair show ?thesis by (simp add: enumerate_dpi_def)
qed

lemma find_small_branches_annotated:
  "annotated t \<Longrightarrow> \<exists>bs. find_small_branches t = Inr bs
     \<and> (\<forall>b\<in>set bs. annotated (fst b) \<and> 0 \<le> snd b \<and> snd b < backbone_len t)"
proof (induction t rule: find_small_branches.induct)
  case (1 t)
  note ann = "1.prems"[unfolded annotated_iff[of t]]
  show ?case
  proof (cases "subtree t = []")
    case True
    then show ?thesis by (simp add: find_small_branches.simps[of t])
  next
    case False
    from backbone_len_annotated(3)[OF "1.prems" False] obtain m where
      m: "argmax (subLength t) = Inr m" "m < length (subtree t)"
      and bl: "backbone_len t = subLength t ! m + py_len (line t) - dividePointIndex t ! m" by blast
    let ?d = "dividePointIndex t ! m" and ?sl = "subLength t ! m" and ?sub = "subtree t ! m"
    from m ann have it: "item (dividePointIndex t) m = Inr ?d" "item (subLength t) m = Inr ?sl"
      "item (subtree t) m = Inr ?sub"
      by (simp_all add: item_def)
    from m ann have d: "0 \<le> ?d" "?d < py_len (line t)" by auto
    from m ann have subann: "annotated ?sub" and sl: "?sl = backbone_len ?sub" by auto
    from backbone_len_annotated(1)[OF subann] sl have sl1: "1 \<le> ?sl" by simp
    have es: "\<forall>e\<in>set (enumerate_dpi t). fst e < length (subtree t) \<and> fst e < length (subLength t)"
      using ann by (auto simp: set_enumerate_dpi)
    have esd: "\<forall>e\<in>set (enumerate_dpi t). 0 \<le> snd e \<and> snd e < py_len (line t) \<and> annotated (subtree t ! fst e)
                 \<and> subLength t ! fst e = backbone_len (subtree t ! fst e)"
      using ann by (auto simp: set_enumerate_dpi)
    have sibling: "annotated (fst b) \<and> 0 \<le> snd b \<and> snd b < backbone_len t"
      if "b \<in> (\<lambda>e. (subtree t ! fst e, ?sl + snd e - ?d)) ` {e \<in> set (enumerate_dpi t). ?d \<le> snd e}" for b
      using that esd sl1 bl by auto
    show ?thesis
    proof (cases "?d = 0")
      case True
      from collect_siblings_Inr[of "enumerate_dpi t" t m ?sl ?d "[]"] es
      have c: "collect_siblings t m ?sl ?d (enumerate_dpi t) [] =
          Inr (map (\<lambda>e. (subtree t ! fst e, ?sl + snd e - ?d)) (filter (\<lambda>e. fst e \<noteq> m) (enumerate_dpi t)))"
        by simp
      from "1.IH"(1)[OF _ m(1) it(1) it(2) True c it(3) subann] False obtain more where
        more: "find_small_branches ?sub = Inr more"
          "\<forall>b\<in>set more. annotated (fst b) \<and> 0 \<le> snd b \<and> snd b < backbone_len ?sub" by auto
      have fsb: "find_small_branches t =
          Inr (map (\<lambda>e. (subtree t ! fst e, ?sl + snd e - ?d)) (filter (\<lambda>e. fst e \<noteq> m) (enumerate_dpi t)) @ more)"
        using False m it True c more(1) by (simp add: find_small_branches.simps[of t])
      have "annotated (fst b) \<and> 0 \<le> snd b \<and> snd b < backbone_len t"
        if "b \<in> set (map (\<lambda>e. (subtree t ! fst e, ?sl + snd e - ?d)) (filter (\<lambda>e. fst e \<noteq> m) (enumerate_dpi t)) @ more)" for b
      proof -
        from that consider "b \<in> (\<lambda>e. (subtree t ! fst e, ?sl + snd e - ?d)) ` {e \<in> set (enumerate_dpi t). ?d \<le> snd e}"
          | "b \<in> set more" using True esd by auto
        then show ?thesis
        proof cases
          case 1
          then show ?thesis by (rule sibling)
        next
          case 2
          with more(2) sl bl d show ?thesis by auto
        qed
      qed
      with fsb show ?thesis by blast
    next
      case nz: False
      with d have d1: "1 \<le> ?d" by simp
      let ?keep = "filter (\<lambda>e. snd e < ?d) (enumerate_dpi t)"
      let ?syn = "Node (slice_to (line t) ?d) (map (\<lambda>e. subtree t ! fst e) ?keep) []
                    (map (\<lambda>e. subLength t ! fst e) ?keep) (map snd ?keep) 999"
      let ?br = "map (\<lambda>e. (subtree t ! fst e, ?sl + snd e - ?d))
                 (filter (\<lambda>e. \<not> snd e < ?d \<and> fst e \<noteq> m) (enumerate_dpi t))"
      from split_siblings_Inr[of "enumerate_dpi t" t m ?sl ?d "[]" "[]" "[]" "[]"] es
      have c: "split_siblings t m ?sl ?d (enumerate_dpi t) ([], [], [], []) =
          Inr (map (\<lambda>e. subtree t ! fst e) ?keep, map snd ?keep, map (\<lambda>e. subLength t ! fst e) ?keep, ?br)"
        by simp
      from "1.IH"(2)[OF _ m(1) it(1) it(2) nz d1 c refl refl refl it(3) subann] False obtain more where
        more: "find_small_branches ?sub = Inr more"
          "\<forall>b\<in>set more. annotated (fst b) \<and> 0 \<le> snd b \<and> snd b < backbone_len ?sub" by auto
      have fsb: "find_small_branches t = Inr (?br @ [(?syn, ?sl)] @ more)"
        using False m it nz d1 c more(1) by (simp add: find_small_branches.simps[of t])
      have syn: "annotated ?syn"
      proof -
        have "slice_to (line t) ?d = take (nat ?d) (line t)" using d by (simp add: slice_to_def)
        moreover have "take (nat ?d) (line t) \<noteq> []" using d d1 by (auto simp: py_len_def)
        moreover have "py_len (take (nat ?d) (line t)) = ?d" using d by (simp add: py_len_def)
        ultimately show ?thesis using esd
          by (auto simp: list_all_iff)
      qed
      have "annotated (fst b) \<and> 0 \<le> snd b \<and> snd b < backbone_len t"
        if "b \<in> set (?br @ [(?syn, ?sl)] @ more)" for b
      proof -
        have "set ?br \<subseteq> (\<lambda>e. (subtree t ! fst e, ?sl + snd e - ?d)) ` {e \<in> set (enumerate_dpi t). ?d \<le> snd e}"
          by auto
        with that consider "b \<in> (\<lambda>e. (subtree t ! fst e, ?sl + snd e - ?d)) ` {e \<in> set (enumerate_dpi t). ?d \<le> snd e}"
          | "b = (?syn, ?sl)" | "b \<in> set more" by (auto simp del: set_map set_filter)
        then show ?thesis
        proof cases
          case 1
          then show ?thesis by (rule sibling)
        next
          case 2
          with syn sl1 bl d show ?thesis by simp
        next
          case 3
          with more(2) sl bl d show ?thesis by auto
        qed
      qed
      with fsb show ?thesis by blast
    qed
  qed
qed

lemma all_nodes_iff: "all_nodes P t = (P t \<and> (\<forall>s\<in>set (subtree t). all_nodes P s))"
  by (cases t) (simp add: list_all_iff)

lemma attach_branches_Inr:
  "attach_branches rs nt = Inr c \<Longrightarrow>
     line c = line nt \<and> deep c = deep nt \<and> layer c = layer nt
     \<and> map Inr (subtree c) = map Inr (subtree nt) @ map fst rs
     \<and> dividePointIndex c = dividePointIndex nt @ map (\<lambda>r. snd (snd r)) rs
     \<and> subLength c = subLength nt
          @ map (\<lambda>r. max_list (subLength (fst (snd r)))) (filter (\<lambda>r. subLength (fst (snd r)) \<noteq> []) rs)"
proof (induction rs arbitrary: nt)
  case Nil
  then show ?case by simp
next
  case (Cons r rs)
  obtain res b d where r: "r = (res, (b, d))" by (cases r) auto
  obtain ln subs dp sl dpi ly where nt: "nt = Node ln subs dp sl dpi ly" by (cases nt)
  from Cons.prems r nt obtain c' where res: "res = Inr c'"
    and rec: "attach_branches rs (Node ln (subs @ [c']) dp
               (if subLength b \<noteq> [] then sl @ [max_list (subLength b)] else sl) (dpi @ [d]) ly) = Inr c"
    by (auto split: sum.splits)
  from Cons.IH[OF rec] r nt res show ?case by auto
qed

lemma attach_branches_total:
  "\<forall>r\<in>set rs. \<exists>c'. fst r = Inr c' \<Longrightarrow> \<exists>c. attach_branches rs nt = Inr c"
proof (induction rs arbitrary: nt)
  case Nil
  then show ?case by simp
next
  case (Cons r rs)
  obtain res b d where r: "r = (res, (b, d))" by (cases r) auto
  obtain ln subs dp sl dpi ly where nt: "nt = Node ln subs dp sl dpi ly" by (cases nt)
  from Cons.prems r obtain c' where res: "res = Inr c'" by auto
  from Cons.IH[of "Node ln (subs @ [c']) dp
               (if subLength b \<noteq> [] then sl @ [max_list (subLength b)] else sl) (dpi @ [d]) ly"] Cons.prems
  show ?case by (simp add: r nt res)
qed

lemma create_Inr:
  assumes "create_new_tree_from_old t = Inr c"
  shows "\<exists>bs. find_longest_line t = Inr (line c) \<and> find_small_branches t = Inr bs
     \<and> map Inr (subtree c) = map (\<lambda>b. create_new_tree_from_old (fst b)) bs
     \<and> dividePointIndex c = map snd bs
     \<and> subLength c = map (\<lambda>b. max_list (subLength (fst b))) (filter (\<lambda>b. subLength (fst b) \<noteq> []) bs)
     \<and> deep c = [] \<and> layer c = 0"
proof -
  from assms obtain new_line bs where ln: "find_longest_line t = Inr new_line"
    and bs: "find_small_branches t = Inr bs"
    and at: "attach_branches (map (\<lambda>br. (create_new_tree_from_old (fst br), br)) bs)
                 (Node new_line [] [] [] [] 0) = Inr c"
    by (auto simp: create_new_tree_from_old.simps[of t] split: sum.splits)
  from attach_branches_Inr[OF at] ln bs show ?thesis
    by (simp add: comp_def filter_map)
qed

lemma create_annotated:
  "annotated t \<Longrightarrow> \<exists>c. create_new_tree_from_old t = Inr c \<and> all_nodes valid_divide_indices c
      \<and> all_nodes (\<lambda>n. line n \<noteq> [] \<and> deep n = []) c"
proof (induction t rule: create_new_tree_from_old.induct)
  case (1 t)
  from find_longest_line_annotated[OF "1.prems"] obtain ln where
    ln: "find_longest_line t = Inr ln" "ln \<noteq> []" by blast
  from find_small_branches_annotated[OF "1.prems"] obtain bs where
    bs: "find_small_branches t = Inr bs"
      "\<forall>b\<in>set bs. annotated (fst b) \<and> 0 \<le> snd b \<and> snd b < backbone_len t" by blast
  have sub: "\<forall>b\<in>set bs. \<exists>c'. create_new_tree_from_old (fst b) = Inr c' \<and> all_nodes valid_divide_indices c'
      \<and> all_nodes (\<lambda>n. line n \<noteq> [] \<and> deep n = []) c'"
    using "1.IH"[OF ln(1) bs(1)] bs(2) by blast
  then have "\<forall>r\<in>set (map (\<lambda>br. (create_new_tree_from_old (fst br), br)) bs). \<exists>c'. fst r = Inr c'"
    by auto
  from attach_branches_total[OF this, of "Node ln [] [] [] [] 0"] ln(1) bs(1)
  obtain c where c: "create_new_tree_from_old t = Inr c"
    by (auto simp: create_new_tree_from_old.simps[of t])
  from create_Inr[OF c] ln(1) bs(1) have
    line: "line c = ln" and subs: "map Inr (subtree c) = map (\<lambda>b. create_new_tree_from_old (fst b)) bs"
    and dpi: "dividePointIndex c = map snd bs" and dp: "deep c = []" by auto
  have "py_len (line c) = backbone_len t" using ln(1) line by (simp add: backbone_len_def)
  with dpi bs(2) have root: "valid_divide_indices c"
    by (auto simp: valid_divide_indices_def list_all_iff)
  have kids: "all_nodes valid_divide_indices s \<and> all_nodes (\<lambda>n. line n \<noteq> [] \<and> deep n = []) s"
    if "s \<in> set (subtree c)" for s
  proof -
    from that have "Inr s \<in> set (map Inr (subtree c) :: (error + tree) list)" by simp
    with subs obtain b where "b \<in> set bs" "create_new_tree_from_old (fst b) = Inr s" by auto
    with sub show ?thesis by auto
  qed
  from c root kids line ln(2) dp show ?case
    by (auto simp: all_nodes_iff[of _ c])
qed

text \<open>
  The invariant of the loop of \<open>assign_depth\<close> after \<open>i\<close> children, started on a node without
  annotation: the running maximum is the first largest entry of \<open>subLength\<close> so far.
\<close>

definition depth_inv :: "int list \<Rightarrow> nat \<Rightarrow> depth_state \<Rightarrow> bool" where
  "depth_inv dpi i st =
     (case st of (max_deep, max_length, max_length_ind, subs', dp, sl) \<Rightarrow>
        length subs' = i \<and> length dp = i \<and> sl = map backbone_len subs'
        \<and> list_all annotated subs' \<and> list_all (all_nodes equal_lengths) subs'
        \<and> (if i = 0 then max_length = 0 \<and> max_length_ind = 0
            else (\<exists>m<i. max_length = sl ! m \<and> max_length_ind = dpi ! m
                    \<and> (\<forall>j<i. sl ! j \<le> sl ! m) \<and> (\<forall>j<m. sl ! j < sl ! m))))"

lemma depth_inv_step:
  assumes inv: "depth_inv dpi i (max_deep, max_length, max_length_ind, subs', dp, sl)"
    and s: "annotated s'" "all_nodes equal_lengths s'"
  shows "depth_inv dpi (Suc i)
           (max sb_deep max_deep,
            (if backbone_len s' > max_length then backbone_len s' else max_length),
            (if backbone_len s' > max_length then dpi ! i else max_length_ind),
            subs' @ [s'], dp @ [sb_deep], sl @ [backbone_len s'])"
proof -
  let ?l = "backbone_len s'"
  from backbone_len_annotated(1)[OF s(1)] have l1: "1 \<le> ?l" .
  from inv have len: "length subs' = i" "length dp = i" "sl = map backbone_len subs'"
    "list_all annotated subs'" "list_all (all_nodes equal_lengths) subs'"
    by (auto simp: depth_inv_def)
  then have lsl: "length sl = i" by simp
  have "\<exists>m<Suc i. (if ?l > max_length then ?l else max_length) = (sl @ [?l]) ! m
          \<and> (if ?l > max_length then dpi ! i else max_length_ind) = dpi ! m
          \<and> (\<forall>j<Suc i. (sl @ [?l]) ! j \<le> (sl @ [?l]) ! m) \<and> (\<forall>j<m. (sl @ [?l]) ! j < (sl @ [?l]) ! m)"
  proof (cases "i = 0")
    case True
    with inv have "max_length = 0" by (simp add: depth_inv_def)
    with l1 True lsl show ?thesis by (intro exI[of _ 0]) auto
  next
    case False
    with inv obtain m where m: "m < i" "max_length = sl ! m" "max_length_ind = dpi ! m"
      "\<forall>j<i. sl ! j \<le> sl ! m" "\<forall>j<m. sl ! j < sl ! m"
      by (auto simp: depth_inv_def)
    show ?thesis
    proof (cases "?l > max_length")
      case True
      have "\<forall>j<i. sl ! j < ?l" using m(2,4) True by auto
      with True lsl show ?thesis
        by (intro exI[of _ i]) (auto simp: nth_append less_Suc_eq)
    next
      case False
      with m lsl show ?thesis
        by (intro exI[of _ m]) (auto simp: nth_append less_Suc_eq)
    qed
  qed
  with len s show ?thesis
    by (simp add: depth_inv_def)
qed

lemma assign_depth_loop_raw:
  assumes "\<forall>s\<in>set subs. \<exists>s' d. assign_depth s = Inr (s', d, backbone_len s') \<and> annotated s'
              \<and> all_nodes equal_lengths s'"
    and "i + length subs \<le> length dpi"
    and "depth_inv dpi i st"
  shows "\<exists>st'. assign_depth_loop subs dpi i st = Inr st' \<and> depth_inv dpi (i + length subs) st'"
  using assms
proof (induction subs arbitrary: i st)
  case Nil
  then show ?case by simp
next
  case (Cons s subs)
  obtain max_deep max_length max_length_ind subs' dp sl where
    st: "st = (max_deep, max_length, max_length_ind, subs', dp, sl)" by (cases st) auto
  from Cons.prems(1) obtain s' d where
    s': "assign_depth s = Inr (s', d, backbone_len s')" "annotated s'" "all_nodes equal_lengths s'"
    by auto
  from Cons.prems(2) have it: "item dpi i = Inr (dpi ! i)" by (simp add: item_def)
  have step: "depth_inv dpi (Suc i)
           (max d max_deep,
            (if backbone_len s' > max_length then backbone_len s' else max_length),
            (if backbone_len s' > max_length then dpi ! i else max_length_ind),
            subs' @ [s'], dp @ [d], sl @ [backbone_len s'])"
    using Cons.prems(3) s'(2,3) unfolding st by (rule depth_inv_step)
  from Cons.IH[OF _ _ step] Cons.prems(1,2)
  obtain st' where "assign_depth_loop subs dpi (Suc i)
           (max d max_deep,
            (if backbone_len s' > max_length then backbone_len s' else max_length),
            (if backbone_len s' > max_length then dpi ! i else max_length_ind),
            subs' @ [s'], dp @ [d], sl @ [backbone_len s']) = Inr st'"
     "depth_inv dpi (Suc i + length subs) st'" by auto
  with s'(1) it st show ?case by simp
qed

lemma assign_depth_raw:
  "raw_tree t \<Longrightarrow> \<exists>t' d. assign_depth t = Inr (t', d, backbone_len t') \<and> annotated t'
      \<and> all_nodes equal_lengths t'"
proof (induction t)
  case (Node ln subs dp sl dpi ly)
  from Node.prems have raw: "ln \<noteq> []" "dp = []" "sl = []" "length dpi = length subs"
    "\<forall>d\<in>set dpi. 0 \<le> d \<and> d < py_len ln" "\<forall>s\<in>set subs. raw_tree s"
    by (auto simp: list_all_iff)
  have kids: "\<forall>s\<in>set subs. \<exists>s' d. assign_depth s = Inr (s', d, backbone_len s') \<and> annotated s'
              \<and> all_nodes equal_lengths s'"
    using Node.IH raw(6) by blast
  have init: "depth_inv dpi 0 (0, 0, 0, [], [], [])" by (simp add: depth_inv_def)
  from assign_depth_loop_raw[OF kids _ init] raw(4)
  obtain st' where loop: "assign_depth_loop subs dpi 0 (0, 0, 0, [], [], []) = Inr st'"
    and inv: "depth_inv dpi (length subs) st'" by auto
  obtain max_deep max_length max_length_ind subs' dp' sl' where
    st': "st' = (max_deep, max_length, max_length_ind, subs', dp', sl')" by (cases st') auto
  let ?t' = "Node ln subs' dp' sl' dpi ly"
  from inv st' have len: "length subs' = length subs" "length dp' = length subs"
    "sl' = map backbone_len subs'" "list_all annotated subs'" "list_all (all_nodes equal_lengths) subs'"
    by (auto simp: depth_inv_def)
  have ann: "annotated ?t'" using raw len by (simp add: list_all_iff)
  have eq: "all_nodes equal_lengths ?t'" using raw len by (simp add: equal_lengths_def)
  have res: "assign_depth (Node ln subs dp sl dpi ly)
      = Inr (?t', max_deep + 1, max_length + py_len (slice_from ln max_length_ind))"
    using loop st' raw by simp
  have "max_length + py_len (slice_from ln max_length_ind) = backbone_len ?t'"
  proof (cases "subs = []")
    case True
    with inv st' len have "max_length = 0" "max_length_ind = 0" "subs' = []"
      by (auto simp: depth_inv_def)
    then show ?thesis
      using backbone_len_annotated(2)[OF ann] by (simp add: slice_from_def)
  next
    case False
    with inv st' obtain m where m: "m < length subs" "max_length = sl' ! m" "max_length_ind = dpi ! m"
      "\<forall>j<length subs. sl' ! j \<le> sl' ! m" "\<forall>j<m. sl' ! j < sl' ! m"
      by (auto simp: depth_inv_def)
    from False len have ne: "subtree ?t' \<noteq> []" by auto
    from backbone_len_annotated(3)[OF ann ne] obtain m' where
      m': "argmax sl' = Inr m'" "m' < length subs'"
      "backbone_len ?t' = sl' ! m' + py_len ln - dpi ! m'" by auto
    from False len have "sl' \<noteq> []" by auto
    from argmax_props[OF this] m'(1) have am: "m' < length sl'" "\<forall>j<length sl'. sl' ! j \<le> sl' ! m'"
      "\<forall>j<m'. sl' ! j < sl' ! m'" by auto
    have "m = m'"
      using m(1,4,5) am len by (intro first_max_unique[of m sl' m']) auto
    from m(1) raw(4,5) have "0 \<le> dpi ! m" "dpi ! m < py_len ln" by auto
    then have "py_len (slice_from ln (dpi ! m)) = py_len ln - dpi ! m"
      by (simp add: slice_from_def py_len_def)
    with m m'(3) \<open>m = m'\<close> show ?thesis by simp
  qed
  with res ann eq show ?case by auto
qed

lemma reset_canonical_raw:
  "all_nodes (\<lambda>n. line n \<noteq> [] \<and> deep n = []) c \<Longrightarrow> all_nodes valid_divide_indices c \<Longrightarrow>
   all_nodes (\<lambda>n. length (dividePointIndex n) = length (subtree n)) c \<Longrightarrow>
   raw_tree (empty_depth_info c)"
proof (induction c)
  case (Node ln subs dp sl dpi ly)
  then show ?case
    by (auto simp: list_all_iff valid_divide_indices_def)
qed

lemma create_lengths:
  "create_new_tree_from_old t = Inr c \<Longrightarrow>
   all_nodes (\<lambda>n. length (dividePointIndex n) = length (subtree n)
                 \<and> length (subLength n) \<le> length (subtree n)) c"
proof (induction t arbitrary: c rule: create_new_tree_from_old.induct)
  case (1 t)
  from create_Inr[OF "1.prems"] obtain bs where
    ln: "find_longest_line t = Inr (line c)" and bs: "find_small_branches t = Inr bs"
    and subs: "map Inr (subtree c) = map (\<lambda>b. create_new_tree_from_old (fst b)) bs"
    and dpi: "dividePointIndex c = map snd bs"
    and sl: "subLength c = map (\<lambda>b. max_list (subLength (fst b))) (filter (\<lambda>b. subLength (fst b) \<noteq> []) bs)"
    by blast
  from arg_cong[OF subs, of length] have len: "length (subtree c) = length bs" by simp
  have kids: "all_nodes (\<lambda>n. length (dividePointIndex n) = length (subtree n)
                 \<and> length (subLength n) \<le> length (subtree n)) s"
    if "s \<in> set (subtree c)" for s
  proof -
    from that have "Inr s \<in> set (map Inr (subtree c) :: (error + tree) list)" by simp
    with subs obtain b where "b \<in> set bs" "create_new_tree_from_old (fst b) = Inr s" by auto
    with "1.IH"[OF ln bs] show ?thesis by blast
  qed
  from len dpi sl kids show ?case
    by (auto simp: all_nodes_iff[of _ c])
qed

lemma all_nodes_mono: "all_nodes P t \<Longrightarrow> (\<And>n. P n \<Longrightarrow> Q n) \<Longrightarrow> all_nodes Q t"
  by (induction t) (auto simp: list_all_iff)

lemma empty_depth_info_fields:
  "line (empty_depth_info c) = line c" "dividePointIndex (empty_depth_info c) = dividePointIndex c"
  "length (subtree (empty_depth_info c)) = length (subtree c)"
  by (cases c; simp)+

lemma assign_depth_loop_length:
  "assign_depth_loop subs dpi i (md, ml, mi, subs0, dp, sl) = Inr (md', ml', mi', subs', dp', sl') \<Longrightarrow>
   length subs' = length subs0 + length subs"
proof (induction subs arbitrary: i md ml mi subs0 dp sl)
  case Nil
  then show ?case by simp
next
  case (Cons s subs)
  from Cons.prems obtain s' sb_deep sb_length idx where
    "assign_depth_loop subs dpi (Suc i)
       (max sb_deep md, (if sb_length > ml then sb_length else ml),
        (if sb_length > ml then idx else mi), subs0 @ [s'], dp @ [sb_deep], sl @ [sb_length])
     = Inr (md', ml', mi', subs', dp', sl')"
    by (auto split: sum.splits)
  from Cons.IH[OF this] show ?case by simp
qed

lemma assign_depth_fields:
  assumes "assign_depth t = Inr (t', d, l)"
  shows "line t' = line t" "dividePointIndex t' = dividePointIndex t"
    "length (subtree t') = length (subtree t)"
proof -
  obtain ln subs dp sl dpi ly where t: "t = Node ln subs dp sl dpi ly" by (cases t)
  from assms t obtain md ml mi subs' dp' sl' where
    loop: "assign_depth_loop subs dpi 0 (0, 0, 0, [], dp, sl) = Inr (md, ml, mi, subs', dp', sl')"
    and t': "t' = Node ln subs' dp' sl' dpi ly"
    by (auto split: sum.splits)
  from assign_depth_loop_length[OF loop] t t'
  show "line t' = line t" "dividePointIndex t' = dividePointIndex t"
    "length (subtree t') = length (subtree t)" by simp_all
qed

section \<open>Lemmas on the labeller\<close>

text \<open>The generations the loop over the directions hands out when it starts with \<open>c\<close> connections.\<close>

fun handed_out :: "nat \<Rightarrow> nat \<Rightarrow> vox list \<Rightarrow> (vox \<times> nat) list" where
  "handed_out c g [] = []"
| "handed_out c g (n # ns) = (n, if c + 1 > 1 then g + 1 else g) # handed_out (c + 1) g ns"

lemma visit_neighbour:
  "visit sh vd v g (c, grades, queue, plp) dir =
     (if is_fresh sh vd grades (neighbour v dir)
      then (c + 1, grades(neighbour v dir := (if c + 1 > 1 then g + 1 else g)),
            queue @ [(neighbour v dir, (if c + 1 > 1 then g + 1 else g), v)],
            record_pair plp (if c + 1 > 1 then g + 1 else g) (neighbour v dir, v))
      else (c, grades, queue, plp))"
  by (cases v; cases dir) (auto simp: visit_def neighbour_def is_fresh_def Let_def)

lemma visit_fold:
  assumes "distinct (map (neighbour v) ds)"
  shows "foldl (visit sh vd v g) (c, grades, queue, plp) ds =
     (c + length (filter (is_fresh sh vd grades) (map (neighbour v) ds)),
      foldl (\<lambda>gr nk. gr(fst nk := snd nk)) grades
        (handed_out c g (filter (is_fresh sh vd grades) (map (neighbour v) ds))),
      queue @ map (\<lambda>nk. (fst nk, snd nk, v))
        (handed_out c g (filter (is_fresh sh vd grades) (map (neighbour v) ds))),
      foldl (\<lambda>p nk. record_pair p (snd nk) (fst nk, v)) plp
        (handed_out c g (filter (is_fresh sh vd grades) (map (neighbour v) ds))))"
  using assms
proof (induction ds arbitrary: c grades queue plp)
  case Nil
  then show ?case by simp
next
  case (Cons d ds)
  let ?n = "neighbour v d"
  from Cons.prems have dist: "distinct (map (neighbour v) ds)" and notin: "?n \<notin> set (map (neighbour v) ds)"
    by auto
  define fr where "fr = filter (is_fresh sh vd grades) (map (neighbour v) ds)"
  show ?case
  proof (cases "is_fresh sh vd grades ?n")
    case True
    let ?k = "if c + 1 > 1 then g + 1 else g"
    have f1: "filter (is_fresh sh vd grades) (map (neighbour v) (d # ds)) = ?n # fr"
      using True by (simp add: fr_def)
    have f2: "filter (is_fresh sh vd (grades(?n := ?k))) (map (neighbour v) ds) = fr"
      unfolding fr_def using notin by (intro filter_cong) (auto simp: is_fresh_def)
    have "foldl (visit sh vd v g) (c, grades, queue, plp) (d # ds)
        = foldl (visit sh vd v g)
            (c + 1, grades(?n := ?k), queue @ [(?n, ?k, v)], record_pair plp ?k (?n, v)) ds"
      using True by (simp add: visit_neighbour del: fun_upd_apply)
    also have "\<dots> = (c + 1 + length fr,
        foldl (\<lambda>gr nk. gr(fst nk := snd nk)) (grades(?n := ?k)) (handed_out (c + 1) g fr),
        (queue @ [(?n, ?k, v)]) @ map (\<lambda>nk. (fst nk, snd nk, v)) (handed_out (c + 1) g fr),
        foldl (\<lambda>p nk. record_pair p (snd nk) (fst nk, v)) (record_pair plp ?k (?n, v))
          (handed_out (c + 1) g fr))"
      using Cons.IH[OF dist, of "c + 1" "grades(?n := ?k)" "queue @ [(?n, ?k, v)]"
          "record_pair plp ?k (?n, v)"] unfolding f2 .
    finally show ?thesis unfolding f1 by (simp del: fun_upd_apply)
  next
    case False
    have f1: "filter (is_fresh sh vd grades) (map (neighbour v) (d # ds)) = fr"
      using False by (simp add: fr_def)
    have "foldl (visit sh vd v g) (c, grades, queue, plp) (d # ds)
        = foldl (visit sh vd v g) (c, grades, queue, plp) ds"
      using False by (simp add: visit_neighbour)
    also note Cons.IH[OF dist, of c grades queue plp, folded fr_def]
    finally show ?thesis unfolding f1 .
  qed
qed

lemma distinct_neighbours: "distinct (map (neighbour v) directions)"
proof -
  have "inj (neighbour v)"
    by (rule injI) (auto simp: neighbour_def split: prod.splits)
  moreover have "distinct directions" by (simp add: directions_def)
  ultimately show ?thesis by (simp add: distinct_map inj_on_subset[of _ UNIV])
qed

lemma handed_out_fst: "map fst (handed_out c g ns) = ns"
  by (induction ns arbitrary: c) auto

lemma handed_out_later: "1 \<le> c \<Longrightarrow> handed_out c g ns = map (\<lambda>n. (n, g + 1)) ns"
  by (induction ns arbitrary: c) auto

lemma handed_out_first: "handed_out 0 g (n # ns) = (n, g) # map (\<lambda>n. (n, g + 1)) ns"
  by (simp add: handed_out_later)

lemma handed_out_grades: "nk \<in> set (handed_out c g ns) \<Longrightarrow> snd nk = g \<or> snd nk = g + 1"
  by (induction ns arbitrary: c) (auto split: if_splits)

lemma fold_update_other:
  "q \<notin> fst ` set ag \<Longrightarrow> foldl (\<lambda>gr nk. gr(fst nk := snd nk)) grades ag q = grades q"
  by (induction ag arbitrary: grades) auto

lemma fold_update_member:
  "distinct (map fst ag) \<Longrightarrow> (n, k) \<in> set ag \<Longrightarrow>
   foldl (\<lambda>gr nk. gr(fst nk := snd nk)) (grades :: vox \<Rightarrow> nat) ag n = k"
proof (induction ag arbitrary: grades)
  case Nil
  then show ?case by simp
next
  case (Cons a ag)
  show ?case
  proof (cases "a = (n, k)")
    case True
    with Cons.prems(1) have "n \<notin> fst ` set ag" by auto
    from fold_update_other[OF this, of "grades(n := k)"] True show ?thesis
      by (simp only: foldl_Cons fst_conv snd_conv fun_upd_same)
  next
    case False
    with Cons show ?thesis by auto
  qed
qed

text \<open>The recorded pairs, each with the generation it is recorded under.\<close>

definition graded_pairs :: "pair_dict \<Rightarrow> (nat \<times> point_pair) list" where
  "graded_pairs plp = concat (map (\<lambda>e. map (Pair (fst e)) (snd e)) plp)"

lemma graded_pairs_dict_set_new:
  "dict_get plp k = Inl e \<Longrightarrow>
   mset (graded_pairs (dict_set plp k prs)) = mset (graded_pairs plp) + mset (map (Pair k) prs)"
  by (induction plp) (auto simp: graded_pairs_def split: if_splits)

lemma graded_pairs_dict_set_old:
  "dict_get plp k = Inr old \<Longrightarrow>
   mset (graded_pairs (dict_set plp k (old @ [pr]))) = add_mset (k, pr) (mset (graded_pairs plp))"
  by (induction plp) (auto simp: graded_pairs_def split: if_splits)

lemma graded_pairs_record_pair:
  "mset (graded_pairs (record_pair plp k pr)) = add_mset (k, pr) (mset (graded_pairs plp))"
  by (cases "dict_get plp k")
    (simp_all add: record_pair_def graded_pairs_dict_set_new graded_pairs_dict_set_old)

lemma graded_pairs_fold:
  "mset (graded_pairs (foldl (\<lambda>p nk. record_pair p (snd nk) (fst nk, v)) plp ag))
     = mset (graded_pairs plp) + mset (map (\<lambda>nk. (snd nk, (fst nk, v))) ag)"
  by (induction ag arbitrary: plp) (simp_all add: graded_pairs_record_pair)

lemma pair_points_graded: "concat (map snd plp) = map snd (graded_pairs plp)"
  by (induction plp) (simp_all add: graded_pairs_def comp_def)

lemma directions_set:
  "(dx, dy, dz) \<in> set directions \<longleftrightarrow>
     (dx = -1 \<or> dx = 0 \<or> dx = 1) \<and> (dy = -1 \<or> dy = 0 \<or> dy = 1) \<and> (dz = -1 \<or> dz = 0 \<or> dz = 1)
     \<and> \<not> (dx = 0 \<and> dy = 0 \<and> dz = 0)"
proof
  assume "(dx, dy, dz) \<in> set directions"
  then show "(dx = -1 \<or> dx = 0 \<or> dx = 1) \<and> (dy = -1 \<or> dy = 0 \<or> dy = 1) \<and> (dz = -1 \<or> dz = 0 \<or> dz = 1)
     \<and> \<not> (dx = 0 \<and> dy = 0 \<and> dz = 0)"
    unfolding directions_def by (elim set_ConsD[elim_format] disjE) simp_all
next
  assume a: "(dx = -1 \<or> dx = 0 \<or> dx = 1) \<and> (dy = -1 \<or> dy = 0 \<or> dy = 1) \<and> (dz = -1 \<or> dz = 0 \<or> dz = 1)
     \<and> \<not> (dx = 0 \<and> dy = 0 \<and> dz = 0)"
  then show "(dx, dy, dz) \<in> set directions"
    unfolding directions_def by (elim conjE disjE) simp_all
qed

lemma neighbour_adjacent: "q \<in> set (map (neighbour v) directions) \<longleftrightarrow> adjacent26 v q"
proof -
  obtain x y z where v: "v = (x, y, z)" by (cases v) auto
  obtain x' y' z' where q: "q = (x', y', z')" by (cases q) auto
  have "q \<in> set (map (neighbour v) directions) \<longleftrightarrow> (x' - x, y' - y, z' - z) \<in> set directions"
  proof
    assume "q \<in> set (map (neighbour v) directions)"
    then obtain d where d: "d \<in> set directions" "q = neighbour v d" by auto
    obtain dx dy dz where "d = (dx, dy, dz)" by (cases d) auto
    with d v q show "(x' - x, y' - y, z' - z) \<in> set directions" by (simp add: neighbour_def)
  next
    assume "(x' - x, y' - y, z' - z) \<in> set directions"
    moreover have "neighbour v (x' - x, y' - y, z' - z) = q" by (simp add: v q neighbour_def)
    ultimately show "q \<in> set (map (neighbour v) directions)" by force
  qed
  also have "\<dots> \<longleftrightarrow> adjacent26 v q"
    unfolding directions_set v q adjacent26_def by auto
  finally show ?thesis .
qed

lemma finite_in_bounds: "finite {q. in_bounds sh q}"
proof -
  obtain sx sy sz where sh: "sh = (sx, sy, sz)" by (cases sh) auto
  have "{q. in_bounds sh q} \<subseteq> {0..<sx} \<times> {0..<sy} \<times> {0..<sz}"
    by (auto simp: sh in_bounds_def)
  then show ?thesis by (rule finite_subset) simp
qed

text \<open>
  The invariant of the \<open>while queue\<close> loop: labelled voxels are reachable and are the root and
  the points of the recorded pairs, each recorded once; a labelled voxel that has left the
  queue has all its qualifying neighbours labelled; queue entries and recorded pairs carry the
  generations of the grades array.
\<close>

definition label_inv :: "shape \<Rightarrow> (vox \<Rightarrow> int) \<Rightarrow> vox \<Rightarrow> label_state \<Rightarrow> bool" where
  "label_inv sh vd root st =
     (case st of (grades, queue, plp) \<Rightarrow>
        (\<forall>p. grades p \<noteq> 0 \<longrightarrow> p \<in> reachable sh vd root)
      \<and> {p. grades p \<noteq> 0} = insert root (set (map (\<lambda>e. fst (snd e)) (graded_pairs plp)))
      \<and> distinct (map (\<lambda>e. fst (snd e)) (graded_pairs plp))
      \<and> root \<notin> set (map (\<lambda>e. fst (snd e)) (graded_pairs plp))
      \<and> (\<forall>p q. grades p \<noteq> 0 \<and> p \<notin> fst ` set queue \<and> adjacent26 p q \<and> in_bounds sh q \<and> vd q = 1
             \<longrightarrow> grades q \<noteq> 0)
      \<and> (\<forall>e\<in>set queue. grades (fst e) = fst (snd e) \<and> 1 \<le> fst (snd e))
      \<and> (\<forall>e\<in>set (graded_pairs plp). grades (fst (snd e)) = fst e \<and> 1 \<le> grades (snd (snd e))
             \<and> grades (snd (snd e)) \<le> fst e \<and> fst e \<le> grades (snd (snd e)) + 1)
      \<and> grades root = 1)"

definition label_measure :: "shape \<Rightarrow> (vox \<Rightarrow> int) \<Rightarrow> label_state \<Rightarrow> nat" where
  "label_measure sh vd st =
     (case st of (grades, queue, plp) \<Rightarrow> card {q. is_fresh sh vd grades q} + length queue)"

lemma label_step_closed:
  "label_step sh vd (v, g, prev) (grades, rest, plp) =
     (foldl (\<lambda>gr nk. gr(fst nk := snd nk)) grades (handed_out 0 g (fresh_neighbours sh vd grades v)),
      rest @ map (\<lambda>nk. (fst nk, snd nk, v)) (handed_out 0 g (fresh_neighbours sh vd grades v)),
      foldl (\<lambda>p nk. record_pair p (snd nk) (fst nk, v)) plp
        (handed_out 0 g (fresh_neighbours sh vd grades v)))"
  by (simp add: label_step_def visit_fold[OF distinct_neighbours] fresh_neighbours_def)

lemma fresh_neighbours_set:
  "q \<in> set (fresh_neighbours sh vd grades v) \<longleftrightarrow> adjacent26 v q \<and> is_fresh sh vd grades q"
  using neighbour_adjacent[of q v] by (auto simp: fresh_neighbours_def)

lemma fresh_neighbours_distinct: "distinct (fresh_neighbours sh vd grades v)"
  unfolding fresh_neighbours_def by (rule distinct_filter) (rule distinct_neighbours)

lemma label_step_inv:
  assumes inv: "label_inv sh vd root (grades, (v, g, prev) # rest, plp)"
  shows "label_inv sh vd root (label_step sh vd (v, g, prev) (grades, rest, plp))"
    and "label_measure sh vd (label_step sh vd (v, g, prev) (grades, rest, plp))
           < label_measure sh vd (grades, (v, g, prev) # rest, plp)"
proof -
  define fr where "fr = fresh_neighbours sh vd grades v"
  define ag where "ag = handed_out 0 g fr"
  define grades' where "grades' = foldl (\<lambda>gr nk. gr(fst nk := snd nk)) grades ag"
  define queue' where "queue' = rest @ map (\<lambda>nk. (fst nk, snd nk, v)) ag"
  define plp' where "plp' = foldl (\<lambda>p nk. record_pair p (snd nk) (fst nk, v)) plp ag"
  define P where "P = map (\<lambda>e. fst (snd e)) (graded_pairs plp)"
  define P' where "P' = map (\<lambda>e. fst (snd e)) (graded_pairs plp')"
  have step: "label_step sh vd (v, g, prev) (grades, rest, plp) = (grades', queue', plp')"
    unfolding grades'_def queue'_def plp'_def ag_def fr_def by (rule label_step_closed)
  from inv have
    a: "\<And>p. grades p \<noteq> 0 \<Longrightarrow> p \<in> reachable sh vd root"
    and b: "{p. grades p \<noteq> 0} = insert root (set (P))"
    and c: "distinct (P)" "root \<notin> set (P)"
    and d: "\<And>p q. grades p \<noteq> 0 \<Longrightarrow> p \<notin> fst ` set ((v, g, prev) # rest) \<Longrightarrow> adjacent26 p q \<Longrightarrow>
               in_bounds sh q \<Longrightarrow> vd q = 1 \<Longrightarrow> grades q \<noteq> 0"
    and e: "\<And>e. e \<in> set ((v, g, prev) # rest) \<Longrightarrow> grades (fst e) = fst (snd e) \<and> 1 \<le> fst (snd e)"
    and f: "\<And>e. e \<in> set (graded_pairs plp) \<Longrightarrow> grades (fst (snd e)) = fst e \<and> 1 \<le> grades (snd (snd e))
             \<and> grades (snd (snd e)) \<le> fst e \<and> fst e \<le> grades (snd (snd e)) + 1"
    unfolding label_inv_def prod.case P_def by blast+
  from inv have root1: "grades root = 1" unfolding label_inv_def prod.case by blast
  from e[of "(v, g, prev)"] have gv: "grades v = g" "1 \<le> g" by auto
  have fst_ag: "map fst ag = fr" unfolding ag_def by (rule handed_out_fst)
  then have set_ag: "fst ` set ag = set fr" by (metis set_map)
  have dist_fr: "distinct fr" unfolding fr_def by (rule fresh_neighbours_distinct)
  have dist_ag: "distinct (map fst ag)" unfolding fst_ag by (rule dist_fr)
  have fr: "\<And>q. q \<in> set fr \<longleftrightarrow> adjacent26 v q \<and> is_fresh sh vd grades q"
    unfolding fr_def by (rule fresh_neighbours_set)
  have ag_grades: "snd nk = g \<or> snd nk = g + 1" if "nk \<in> set ag" for nk
    using that unfolding ag_def by (rule handed_out_grades)
  have other: "grades' q = grades q" if "q \<notin> set fr" for q
    unfolding grades'_def using that set_ag by (intro fold_update_other) simp
  have member: "grades' (fst nk) = snd nk" if "nk \<in> set ag" for nk
  proof -
    from that have "(fst nk, snd nk) \<in> set ag" by (simp only: prod.collapse)
    with dist_ag show ?thesis unfolding grades'_def by (rule fold_update_member)
  qed
  have member_grade: "grades' q = g \<or> grades' q = g + 1" if "q \<in> set fr" for q
  proof -
    from that set_ag have "q \<in> fst ` set ag" by simp
    then obtain nk where nk: "nk \<in> set ag" "fst nk = q" by (auto simp: image_iff)
    from member[OF nk(1)] nk(2) have "grades' q = snd nk" by (simp only:)
    with ag_grades[OF nk(1)] show ?thesis by (simp only:)
  qed
  have labelled: "grades' q \<noteq> 0 \<longleftrightarrow> grades q \<noteq> 0 \<or> q \<in> set fr" for q
  proof (cases "q \<in> set fr")
    case True
    with member_grade[OF True] gv show ?thesis by auto
  next
    case False
    with other[OF False] show ?thesis by simp
  qed
  have keep: "grades' q = grades q" if "grades q \<noteq> 0" for q
    using that fr[of q] other[of q] by (auto simp: is_fresh_def)
  have gp: "mset (graded_pairs plp') = mset (graded_pairs plp) + mset (map (\<lambda>nk. (snd nk, (fst nk, v))) ag)"
    unfolding plp'_def by (rule graded_pairs_fold)
  have "mset (P') = image_mset (\<lambda>e. fst (snd e)) (mset (graded_pairs plp'))"
    by (simp add: P'_def)
  also have "\<dots> = mset (P) + mset (map fst ag)"
    unfolding gp by (simp add: image_mset.compositionality comp_def P_def)
  finally have ptsm: "mset (P') = mset (P @ fr)" unfolding fst_ag by simp
  from mset_eq_setD[OF ptsm] have sp: "set (P') = set (P) \<union> set fr" by simp
  have set_gp: "set (graded_pairs plp') = set (graded_pairs plp) \<union> (\<lambda>nk. (snd nk, (fst nk, v))) ` set ag"
    using arg_cong[OF gp, of set_mset] by simp
  have a': "p \<in> reachable sh vd root" if "grades' p \<noteq> 0" for p
  proof (cases "grades p \<noteq> 0")
    case True
    then show ?thesis by (rule a)
  next
    case False
    with that labelled[of p] have "p \<in> set fr" by simp
    with fr[of p] have adj: "adjacent26 v p" "in_bounds sh p" "vd p = 1" by (auto simp: is_fresh_def)
    from gv have "grades v \<noteq> 0" by simp
    then have "v \<in> reachable sh vd root" by (rule a)
    from reachable.step[OF this adj] show ?thesis .
  qed
  have "{p. grades' p \<noteq> 0} = {p. grades p \<noteq> 0} \<union> set fr"
  proof (rule set_eqI)
    fix p
    show "p \<in> {p. grades' p \<noteq> 0} \<longleftrightarrow> p \<in> {p. grades p \<noteq> 0} \<union> set fr"
      using labelled[of p] by simp
  qed
  also have "\<dots> = insert root (set (P) \<union> set fr)" unfolding b by simp
  finally have b': "{p. grades' p \<noteq> 0} = insert root (set (P'))"
    unfolding sp .
  have "set (P) \<inter> set fr = {}"
  proof (rule ccontr)
    assume "set (P) \<inter> set fr \<noteq> {}"
    then obtain q where q: "q \<in> set (P)" "q \<in> set fr" by auto
    from q(1) b have "grades q \<noteq> 0" by blast
    with q(2) fr[of q] show False by (simp add: is_fresh_def)
  qed
  with c(1) dist_fr have "distinct (P @ fr)" by simp
  with ptsm have c1': "distinct (P')" by (metis mset_eq_imp_distinct_iff)
  have c2': "root \<notin> set (P')"
  proof -
    from b have "grades root \<noteq> 0" by blast
    with fr[of root] have "root \<notin> set fr" by (simp add: is_fresh_def)
    with c(2) sp show ?thesis by simp
  qed
  have set_queue': "fst ` set queue' = fst ` set rest \<union> set fr"
    unfolding queue'_def using set_ag by (simp add: image_Un image_image)
  have d': "grades' q \<noteq> 0" if "grades' p \<noteq> 0" "p \<notin> fst ` set queue'" "adjacent26 p q"
    "in_bounds sh q" "vd q = 1" for p q
  proof -
    from that(2) set_queue' have pfr: "p \<notin> set fr" and prest: "p \<notin> fst ` set rest" by simp_all
    with that(1) labelled[of p] have lp: "grades p \<noteq> 0" by simp
    show ?thesis
    proof (cases "p = v")
      case True
      show ?thesis
      proof (cases "grades q = 0")
        case True
        with that \<open>p = v\<close> fr[of q] have "q \<in> set fr" by (simp add: is_fresh_def)
        with labelled[of q] show ?thesis by simp
      next
        case False
        with labelled[of q] show ?thesis by simp
      qed
    next
      case False
      with prest have "p \<notin> fst ` set ((v, g, prev) # rest)" by simp
      from d[OF lp this that(3,4,5)] labelled[of q] show ?thesis by simp
    qed
  qed
  have e': "grades' (fst e) = fst (snd e) \<and> 1 \<le> fst (snd e)" if "e \<in> set queue'" for e
  proof -
    from that consider "e \<in> set rest" | nk where "nk \<in> set ag" "e = (fst nk, snd nk, v)"
      unfolding queue'_def by auto
    then show ?thesis
    proof cases
      case 1
      with e[of e] have "grades (fst e) = fst (snd e)" "1 \<le> fst (snd e)" by auto
      with keep[of "fst e"] show ?thesis by simp
    next
      case 2
      from member[OF 2(1)] have "grades' (fst e) = fst (snd e)"
        unfolding 2(2) by (simp only: fst_conv snd_conv)
      moreover from ag_grades[OF 2(1)] 2(2) gv have "1 \<le> fst (snd e)" by auto
      ultimately show ?thesis by simp
    qed
  qed
  have f': "grades' (fst (snd e)) = fst e \<and> 1 \<le> grades' (snd (snd e))
             \<and> grades' (snd (snd e)) \<le> fst e \<and> fst e \<le> grades' (snd (snd e)) + 1"
    if "e \<in> set (graded_pairs plp')" for e
  proof -
    from that set_gp consider "e \<in> set (graded_pairs plp)"
      | nk where "nk \<in> set ag" "e = (snd nk, (fst nk, v))" by auto
    then show ?thesis
    proof cases
      case 1
      from f[OF 1] have *: "grades (fst (snd e)) = fst e" "1 \<le> grades (snd (snd e))"
        "grades (snd (snd e)) \<le> fst e" "fst e \<le> grades (snd (snd e)) + 1" by auto
      then have "grades (fst (snd e)) \<noteq> 0" "grades (snd (snd e)) \<noteq> 0" by auto
      with keep[of "fst (snd e)"] keep[of "snd (snd e)"] * show ?thesis by simp
    next
      case 2
      from member[OF 2(1)] have "grades' (fst (snd e)) = fst e"
        unfolding 2(2) by (simp only: fst_conv snd_conv)
      moreover from gv keep[of v] have "grades' v = g" by simp
      moreover note ag_grades[OF 2(1)]
      ultimately show ?thesis using 2(2) gv by auto
    qed
  qed
  have "label_inv sh vd root (grades', queue', plp')"
    unfolding label_inv_def prod.case P'_def[symmetric]
  proof (intro conjI allI impI ballI)
    fix p assume "grades' p \<noteq> 0" then show "p \<in> reachable sh vd root" by (rule a')
  next
    show "{p. grades' p \<noteq> 0} = insert root (set (P'))" by (rule b')
  next
    show "distinct (P')" by (rule c1')
  next
    show "root \<notin> set (P')" by (rule c2')
  next
    fix p q assume "grades' p \<noteq> 0 \<and> p \<notin> fst ` set queue' \<and> adjacent26 p q \<and> in_bounds sh q \<and> vd q = 1"
    then show "grades' q \<noteq> 0" using d'[of p q] by blast
  next
    fix e assume "e \<in> set queue'" then show "grades' (fst e) = fst (snd e)" using e' by blast
  next
    fix e assume "e \<in> set queue'" then show "1 \<le> fst (snd e)" using e' by blast
  next
    fix e assume "e \<in> set (graded_pairs plp')"
    then show "grades' (fst (snd e)) = fst e" using f' by blast
  next
    fix e assume "e \<in> set (graded_pairs plp')"
    then show "1 \<le> grades' (snd (snd e))" using f' by blast
  next
    fix e assume "e \<in> set (graded_pairs plp')"
    then show "grades' (snd (snd e)) \<le> fst e" using f' by blast
  next
    fix e assume "e \<in> set (graded_pairs plp')"
    then show "fst e \<le> grades' (snd (snd e)) + 1" using f' by blast
  next
    from root1 keep[of root] show "grades' root = 1" by simp
  qed
  then show "label_inv sh vd root (label_step sh vd (v, g, prev) (grades, rest, plp))"
    unfolding step .
  have fin: "finite {q. is_fresh sh vd grades q}"
    by (rule finite_subset[OF _ finite_in_bounds[of sh]]) (auto simp: is_fresh_def)
  have fresh': "is_fresh sh vd grades' q \<longleftrightarrow> is_fresh sh vd grades q \<and> q \<notin> set fr" for q
    using labelled[of q] fr[of q] by (auto simp: is_fresh_def)
  have "{q. is_fresh sh vd grades' q} = {q. is_fresh sh vd grades q} - set fr"
    unfolding fresh' by blast
  moreover have "set fr \<subseteq> {q. is_fresh sh vd grades q}"
  proof
    fix q assume "q \<in> set fr"
    with fr[of q] show "q \<in> {q. is_fresh sh vd grades q}" by simp
  qed
  ultimately have "card {q. is_fresh sh vd grades' q} + length fr = card {q. is_fresh sh vd grades q}"
  proof -
    assume eq: "{q. is_fresh sh vd grades' q} = {q. is_fresh sh vd grades q} - set fr"
      and sub: "set fr \<subseteq> {q. is_fresh sh vd grades q}"
    from card_mono[OF fin sub] have le: "length fr \<le> card {q. is_fresh sh vd grades q}"
      using distinct_card[OF dist_fr] by simp
    from card_Diff_subset[OF _ sub] have "card ({q. is_fresh sh vd grades q} - set fr)
        = card {q. is_fresh sh vd grades q} - length fr"
      using distinct_card[OF dist_fr] by simp
    with le show ?thesis unfolding eq by simp
  qed
  moreover have "length ag = length fr" using arg_cong[OF fst_ag, of length] by simp
  ultimately show "label_measure sh vd (label_step sh vd (v, g, prev) (grades, rest, plp))
           < label_measure sh vd (grades, (v, g, prev) # rest, plp)"
    unfolding step label_measure_def prod.case queue'_def by simp
qed

lemma label_loop_Nil: "label_loop sh vd (grades, [], plp) = Some (grades, [], plp)"
  by (simp add: label_loop.simps)

lemma label_loop_Cons:
  "label_loop sh vd (grades, entry # rest, plp)
     = label_loop sh vd (label_step sh vd entry (grades, rest, plp))"
  by (subst label_loop.simps) simp

lemma label_loop_total:
  "label_inv sh vd root st \<Longrightarrow>
   \<exists>grades plp. label_loop sh vd st = Some (grades, [], plp) \<and> label_inv sh vd root (grades, [], plp)"
proof (induction "label_measure sh vd st" arbitrary: st rule: less_induct)
  case less
  obtain grades queue plp where st: "st = (grades, queue, plp)" by (cases st) auto
  show ?case
  proof (cases queue)
    case Nil
    with less.prems st show ?thesis by (simp add: label_loop_Nil)
  next
    case (Cons entry rest)
    obtain v g prev where entry: "entry = (v, g, prev)" by (cases entry) auto
    from less.prems have inv: "label_inv sh vd root (grades, (v, g, prev) # rest, plp)"
      by (simp add: st Cons entry)
    from label_step_inv[OF inv] less.hyps[of "label_step sh vd (v, g, prev) (grades, rest, plp)"]
    show ?thesis by (simp add: st Cons entry label_loop_Cons)
  qed
qed

lemma np_index3_in_bounds: "in_bounds sh v \<Longrightarrow> np_index3 sh v = Some v"
  by (cases sh; cases v) (auto simp: in_bounds_def np_index3_def np_index_def)

lemma label_inv_initial:
  "label_inv sh vd root ((\<lambda>v. 0)(root := 1), [(root, 1, prev)], [])"
  by (auto simp: label_inv_def graded_pairs_def intro: reachable.root)

lemma label_invD:
  assumes "label_inv sh vd root (grades, queue, plp)"
  shows "\<And>p. grades p \<noteq> 0 \<Longrightarrow> p \<in> reachable sh vd root"
    and "{p. grades p \<noteq> 0} = insert root (set (map (\<lambda>e. fst (snd e)) (graded_pairs plp)))"
    and "distinct (map (\<lambda>e. fst (snd e)) (graded_pairs plp))"
    and "root \<notin> set (map (\<lambda>e. fst (snd e)) (graded_pairs plp))"
    and "\<And>p q. grades p \<noteq> 0 \<Longrightarrow> p \<notin> fst ` set queue \<Longrightarrow> adjacent26 p q \<Longrightarrow>
               in_bounds sh q \<Longrightarrow> vd q = 1 \<Longrightarrow> grades q \<noteq> 0"
    and "\<And>e. e \<in> set queue \<Longrightarrow> grades (fst e) = fst (snd e) \<and> 1 \<le> fst (snd e)"
    and "\<And>e. e \<in> set (graded_pairs plp) \<Longrightarrow> grades (fst (snd e)) = fst e \<and> 1 \<le> grades (snd (snd e))
             \<and> grades (snd (snd e)) \<le> fst e \<and> fst e \<le> grades (snd (snd e)) + 1"
    and "grades root = 1"
  using assms unfolding label_inv_def prod.case by blast+

lemma label_inv_final:
  assumes "label_inv sh vd root (grades, [], plp)"
  shows "{p. grades p \<noteq> 0} = reachable sh vd root"
proof
  from label_invD(1)[OF assms]
  show "{p. grades p \<noteq> 0} \<subseteq> reachable sh vd root" by blast
  from label_invD(2)[OF assms] have root_labelled: "grades root \<noteq> 0" by blast
  show "reachable sh vd root \<subseteq> {p. grades p \<noteq> 0}"
  proof
    fix p assume "p \<in> reachable sh vd root"
    then have "grades p \<noteq> 0"
    proof induction
      case root
      then show ?case by (rule root_labelled)
    next
      case (step p q)
      have "p \<notin> fst ` set []" by simp
      from label_invD(5)[OF assms step.IH this step.hyps(2,3,4)] show ?case .
    qed
    then show "p \<in> {p. grades p \<noteq> 0}" by simp
  qed
qed

subsection \<open>Segments partition the recorded pairs\<close>

lemma dict_get_set: "dict_get (dict_set d k v) k = Inr v"
  by (induction d) auto

lemma dict_set_keys: "fst ` set (dict_set d k v) = insert k (fst ` set d)"
proof (induction d)
  case Nil
  then show ?case by simp
next
  case (Cons a d)
  obtain k' v' where a: "a = (k', v')" by (cases a)
  show ?case
  proof (cases "k' = k")
    case True
    with a show ?thesis by simp
  next
    case False
    with a Cons.IH show ?thesis by (simp add: insert_commute)
  qed
qed

lemma dict_set_new_pairs:
  "k \<notin> fst ` set d \<Longrightarrow>
   mset (concat (map snd (dict_set d k v))) = mset (concat (map snd d)) + mset v"
  by (induction d) auto

lemma dict_set_old_pairs:
  "dict_get d k = Inr old \<Longrightarrow>
   mset (concat (map snd (dict_set d k v))) + mset old = mset (concat (map snd d)) + mset v"
  by (induction d) (auto split: if_splits)

text \<open>The pairs already read.\<close>

definition read_pairs :: "point_pair list \<Rightarrow> nat list \<Rightarrow> point_pair list" where
  "read_pairs pl readed = map fst (filter (\<lambda>e. snd e = 1) (zip pl readed))"

lemma read_pairs_update:
  "i < length pl \<Longrightarrow> length readed = length pl \<Longrightarrow> readed ! i \<noteq> 1 \<Longrightarrow>
   mset (read_pairs pl (readed[i := 1])) = add_mset (pl ! i) (mset (read_pairs pl readed))"
proof (induction pl arbitrary: readed i)
  case Nil
  then show ?case by simp
next
  case (Cons p pl)
  then obtain r rs where r: "readed = r # rs" by (cases readed) auto
  show ?case
  proof (cases i)
    case 0
    with Cons.prems r show ?thesis by (simp add: read_pairs_def)
  next
    case (Suc j)
    with Cons.prems r have "mset (read_pairs pl (rs[j := 1])) = add_mset (pl ! j) (mset (read_pairs pl rs))"
      by (intro Cons.IH) auto
    with Suc r show ?thesis by (simp add: read_pairs_def)
  qed
qed

lemma sum_list_le_length: "\<forall>r\<in>set rs. r \<le> (1::nat) \<Longrightarrow> sum_list rs \<le> length rs"
  by (induction rs) auto

lemma read_pairs_all:
  "length readed = length pl \<Longrightarrow> \<forall>r\<in>set readed. r \<le> 1 \<Longrightarrow> length pl \<le> sum_list readed \<Longrightarrow>
   read_pairs pl readed = pl"
proof (induction pl arbitrary: readed)
  case Nil
  then show ?case by (simp add: read_pairs_def)
next
  case (Cons p pl)
  then obtain r rs where r: "readed = r # rs" by (cases readed) auto
  from Cons.prems(2) r have "sum_list rs \<le> length rs" by (intro sum_list_le_length) simp
  with Cons.prems r have "r = 1" "length pl \<le> sum_list rs" by auto
  with Cons.IH[of rs] Cons.prems r show ?case by (simp add: read_pairs_def)
qed

lemma read_pairs_none: "read_pairs pl (replicate (length pl) 0) = []"
  by (induction pl) (simp_all add: read_pairs_def)

lemma enumerate_list_set:
  "(i, x) \<in> set (enumerate_list xs) \<longleftrightarrow> i < length xs \<and> x = xs ! i"
proof
  assume "(i, x) \<in> set (enumerate_list xs)"
  then obtain k where "[0..<length xs] ! k = i" "xs ! k = x" "k < length xs"
    by (auto simp: enumerate_list_def in_set_zip)
  then show "i < length xs \<and> x = xs ! i" by auto
next
  assume a: "i < length xs \<and> x = xs ! i"
  then have "[0..<length xs] ! i = i \<and> xs ! i = x \<and> i < length [0..<length xs] \<and> i < length xs"
    by simp
  then show "(i, x) \<in> set (enumerate_list xs)"
    unfolding enumerate_list_def in_set_zip by (intro exI[of _ i]) simp
qed

lemma find_unread_total:
  "\<forall>e\<in>set es. fst e < length readed \<Longrightarrow> \<exists>r. find_unread es readed = Inr r"
proof (induction es)
  case Nil
  then show ?case by simp
next
  case (Cons e es)
  obtain i pp where e: "e = (i, pp)" by (cases e)
  with Cons.prems have "item readed i = Inr (readed ! i)" by (simp add: item_def)
  with Cons e show ?case by auto
qed

lemma find_extension_total:
  "\<forall>e\<in>set es. fst e < length readed \<Longrightarrow> dict_get segs seg_num = Inr cur \<Longrightarrow> cur \<noteq> [] \<Longrightarrow>
   \<exists>r. find_extension es readed segs seg_num = Inr r"
proof (induction es)
  case Nil
  then show ?case by simp
next
  case (Cons e es)
  obtain i pp where e: "e = (i, pp)" by (cases e)
  with Cons.prems have "item readed i = Inr (readed ! i)" by (simp add: item_def)
  with Cons e show ?case by auto
qed

text \<open>
  The invariant of the segment loop: the segments hold exactly the pairs read so far, and
  while \<open>find_flag\<close> is 1 the current segment exists and is not empty.
\<close>

definition seg_inv :: "point_pair list \<Rightarrow> segment_state \<Rightarrow> bool" where
  "seg_inv pl st =
     (case st of (readed, seg_num, segs, find_flag) \<Rightarrow>
        length readed = length pl \<and> (\<forall>r\<in>set readed. r \<le> 1)
      \<and> mset (concat (map snd segs)) = mset (read_pairs pl readed)
      \<and> (find_flag = 1 \<longrightarrow> (\<exists>cur. dict_get segs seg_num = Inr cur \<and> cur \<noteq> []))
      \<and> (\<forall>k\<in>fst ` set segs. k \<le> seg_num))"

lemma seed_phase:
  assumes inv: "seg_inv pl (readed, seg_num, segs, find_flag)"
    and more: "sum_list readed < length pl"
  shows "\<exists>readed1 seg_num1 segs1.
      (if find_flag \<noteq> 1 then seed_segment pl (readed, seg_num, segs) else Inr (readed, seg_num, segs))
        = Inr (readed1, seg_num1, segs1)
      \<and> seg_inv pl (readed1, seg_num1, segs1, 1)
      \<and> unread readed1 + (if find_flag \<noteq> 1 then 1 else 0) = unread readed"
proof (cases "find_flag = 1")
  case True
  with inv show ?thesis by auto
next
  case False
  from inv have len: "length readed = length pl" and le: "\<forall>r\<in>set readed. r \<le> 1"
    and ms: "mset (concat (map snd segs)) = mset (read_pairs pl readed)"
    and keys: "\<forall>k\<in>fst ` set segs. k \<le> seg_num"
    by (auto simp: seg_inv_def)
  have "\<forall>e\<in>set (enumerate_list pl). fst e < length readed"
    using len by (auto simp: enumerate_list_set)
  from find_unread_total[OF this] obtain r where r: "find_unread (enumerate_list pl) readed = Inr r"
    by blast
  from find_unread_None[of pl readed] more r obtain i pp where
    some: "find_unread (enumerate_list pl) readed = Inr (Some (i, pp))"
    by (cases r) auto
  from find_unread_Some[OF some] have i: "i < length readed" "readed ! i \<noteq> 1"
    and mem: "(i, pp) \<in> set (enumerate_list pl)" by auto
  from mem have pp: "pp = pl ! i" "i < length pl" by (auto simp: enumerate_list_set)
  let ?readed1 = "readed[i := 1]" and ?segs1 = "dict_set segs (seg_num + 1) [pp]"
  have seed: "seed_segment pl (readed, seg_num, segs) = Inr (?readed1, seg_num + 1, ?segs1)"
    using some by (simp add: seed_segment_def)
  have fresh: "seg_num + 1 \<notin> fst ` set segs" using keys by auto
  have "seg_inv pl (?readed1, seg_num + 1, ?segs1, 1)"
    unfolding seg_inv_def prod.case
  proof (intro conjI)
    show "length ?readed1 = length pl" using len by simp
    show "\<forall>r\<in>set ?readed1. r \<le> 1" using le by (auto dest!: set_update_subset_insert[THEN subsetD])
    show "mset (concat (map snd ?segs1)) = mset (read_pairs pl ?readed1)"
      using dict_set_new_pairs[OF fresh, of "[pp]"] read_pairs_update[OF pp(2) len i(2)] ms pp(1)
      by simp
    show "1 = 1 \<longrightarrow> (\<exists>cur. dict_get ?segs1 (seg_num + 1) = Inr cur \<and> cur \<noteq> [])"
      by (simp add: dict_get_set)
    show "\<forall>k\<in>fst ` set ?segs1. k \<le> seg_num + 1"
      unfolding dict_set_keys using keys by auto
  qed
  moreover from unread_update[OF i] have "unread ?readed1 + 1 = unread readed" by simp
  ultimately show ?thesis using False seed by auto
qed

lemma segments_loop_inv:
  "seg_inv pl st \<Longrightarrow>
   \<exists>segs'. segments_loop pl st = Inr segs' \<and> mset (concat (map snd segs')) = mset pl"
proof (induction "2 * unread (fst st) + (if snd (snd (snd st)) = 1 then 1 else 0)"
    arbitrary: st rule: less_induct)
  case less
  obtain readed seg_num segs find_flag where st: "st = (readed, seg_num, segs, find_flag)"
    by (cases st) auto
  note inv = less.prems[unfolded st]
  from inv have len: "length readed = length pl" and le: "\<forall>r\<in>set readed. r \<le> 1"
    and ms: "mset (concat (map snd segs)) = mset (read_pairs pl readed)"
    by (auto simp: seg_inv_def)
  show ?case
  proof (cases "sum_list readed < length pl")
    case False
    then have "read_pairs pl readed = pl" using len le by (intro read_pairs_all) auto
    with False ms show ?thesis by (simp add: st segments_loop.simps)
  next
    case True
    from seed_phase[OF inv True] obtain readed1 seg_num1 segs1 where
      seed: "(if find_flag \<noteq> 1 then seed_segment pl (readed, seg_num, segs)
              else Inr (readed, seg_num, segs)) = Inr (readed1, seg_num1, segs1)"
      and inv1: "seg_inv pl (readed1, seg_num1, segs1, 1)"
      and un1: "unread readed1 + (if find_flag \<noteq> 1 then 1 else 0) = unread readed"
      by blast
    from inv1 have len1: "length readed1 = length pl" and le1: "\<forall>r\<in>set readed1. r \<le> 1"
      and ms1: "mset (concat (map snd segs1)) = mset (read_pairs pl readed1)"
      and keys1: "\<forall>k\<in>fst ` set segs1. k \<le> seg_num1"
      by (auto simp: seg_inv_def)
    from inv1 obtain cur where cur: "dict_get segs1 seg_num1 = Inr cur" "cur \<noteq> []"
      by (auto simp: seg_inv_def)
    have "\<forall>e\<in>set (enumerate_list pl). fst e < length readed1"
      using len1 by (auto simp: enumerate_list_set)
    from find_extension_total[OF this cur] obtain r where
      r: "find_extension (enumerate_list pl) readed1 segs1 seg_num1 = Inr r" by blast
    show ?thesis
    proof (cases r)
      case None
      have inv2: "seg_inv pl (readed1, seg_num1, segs1, 0)"
        using len1 le1 ms1 keys1 by (simp add: seg_inv_def)
      have "2 * unread readed1 < 2 * unread readed + (if find_flag = 1 then 1 else 0)"
        using un1 by (auto split: if_splits)
      from less.hyps[of "(readed1, seg_num1, segs1, 0)", OF _ inv2] this
      obtain segs' where "segments_loop pl (readed1, seg_num1, segs1, 0) = Inr segs'"
        "mset (concat (map snd segs')) = mset pl" by (auto simp: st)
      with True seed r None show ?thesis
        by (simp add: st segments_loop.simps[of pl readed seg_num segs find_flag])
    next
      case (Some x)
      obtain i pp at_tail where x: "x = (i, pp, at_tail)" by (cases x) auto
      from find_extension_Some[OF r[unfolded Some x]] have i: "i < length readed1" "readed1 ! i \<noteq> 1"
        and mem: "(i, pp) \<in> set (enumerate_list pl)" by auto
      from mem have pp: "pp = pl ! i" "i < length pl" by (auto simp: enumerate_list_set)
      let ?new = "if at_tail then cur @ [pp] else pp # cur"
      let ?st2 = "(readed1[i := 1], seg_num1, dict_set segs1 seg_num1 ?new, 1)"
      have inv2: "seg_inv pl ?st2"
        unfolding seg_inv_def prod.case
      proof (intro conjI)
        show "length (readed1[i := 1]) = length pl" using len1 by simp
        show "\<forall>r\<in>set (readed1[i := 1]). r \<le> 1"
          using le1 by (auto dest!: set_update_subset_insert[THEN subsetD])
        show "mset (concat (map snd (dict_set segs1 seg_num1 ?new))) = mset (read_pairs pl (readed1[i := 1]))"
          using dict_set_old_pairs[OF cur(1), of ?new] read_pairs_update[OF pp(2) len1 i(2)] ms1 pp(1)
          by (auto split: if_splits)
        show "1 = 1 \<longrightarrow> (\<exists>cur. dict_get (dict_set segs1 seg_num1 ?new) seg_num1 = Inr cur \<and> cur \<noteq> [])"
          by (simp add: dict_get_set)
        show "\<forall>k\<in>fst ` set (dict_set segs1 seg_num1 ?new). k \<le> seg_num1"
          unfolding dict_set_keys using keys1 by auto
      qed
      from unread_update[OF i] un1
      have "2 * unread (readed1[i := 1]) + 1 < 2 * unread readed + (if find_flag = 1 then 1 else 0)"
        by (auto split: if_splits)
      from less.hyps[of ?st2, OF _ inv2] this
      obtain segs' where "segments_loop pl ?st2 = Inr segs'"
        "mset (concat (map snd segs')) = mset pl" by (auto simp: st)
      with True seed r Some x cur show ?thesis
        by (simp add: st segments_loop.simps[of pl readed seg_num segs find_flag])
    qed
  qed
qed

lemma segments_loop_total:
  "\<exists>segs. segments_loop pl (replicate (length pl) 0, 0, [], 0) = Inr segs
      \<and> mset (concat (map snd segs)) = mset pl"
  by (rule segments_loop_inv) (simp add: seg_inv_def read_pairs_none)

lemma get_all_segments_total:
  "\<exists>seg_dic. get_all_segments plp = Inr seg_dic
      \<and> mset (segment_pairs seg_dic) = mset (concat (map snd plp))"
proof (induction plp)
  case Nil
  then show ?case by (simp add: segment_pairs_def)
next
  case (Cons a plp)
  obtain k pl where a: "a = (k, pl)" by (cases a)
  from segments_loop_total[of pl] obtain segs where
    segs: "segments_loop pl (replicate (length pl) 0, 0, [], 0) = Inr segs"
    "mset (concat (map snd segs)) = mset pl" by blast
  from Cons.IH obtain seg_dic where sd: "get_all_segments plp = Inr seg_dic"
    "mset (segment_pairs seg_dic) = mset (concat (map snd plp))" by blast
  from segs sd a show ?case by (simp add: segment_pairs_def)
qed

lemma label_vessel_grades_total:
  assumes "in_bounds sh root"
  shows "\<exists>grades plp seg_dic.
      label_vessel_grades sh vd root = Some (Inr (grades, seg_dic))
      \<and> label_inv sh vd root (grades, [], plp)
      \<and> mset (segment_pairs seg_dic) = mset (map snd (graded_pairs plp))"
proof -
  from label_loop_total[OF label_inv_initial[of sh vd root "(-1, -1, -1)"]]
  obtain grades plp where loop:
    "label_loop sh vd ((\<lambda>v. 0)(root := 1), [(root, 1, (-1, -1, -1))], []) = Some (grades, [], plp)"
    and inv: "label_inv sh vd root (grades, [], plp)" by blast
  from get_all_segments_total[of plp] obtain seg_dic where
    sd: "get_all_segments plp = Inr seg_dic"
    "mset (segment_pairs seg_dic) = mset (concat (map snd plp))" by blast
  from loop sd(1) np_index3_in_bounds[OF assms]
  have "label_vessel_grades sh vd root = Some (Inr (grades, seg_dic))"
    by (simp add: label_vessel_grades_def)
  with inv sd(2) show ?thesis by (auto simp: pair_points_graded)
qed

lemma two_voxels_labelled:
  "label_vessel_grades (2, 1, 1) two_voxels (0, 0, 0)
     = Some (Inr ((\<lambda>v. 0)((0, 0, 0) := 1, (1, 0, 0) := 1), [(1, [(1, [((1, 0, 0), (0, 0, 0))])])]))"
  by (simp add: label_vessel_grades_def np_index3_def np_index_def label_loop_Cons label_loop_Nil
      label_step_def visit_neighbour neighbour_def is_fresh_def in_bounds_def directions_def
      two_voxels_def skeleton_mask_def record_pair_def
      segments_loop.simps seed_segment_def enumerate_list_def item_def)

lemma label_step_grades:
  assumes "label_step sh vd (v, g, prev) (gr, rest, plp) = (gr', queue', plp')"
  shows "fresh_neighbours sh vd gr v \<noteq> [] \<longrightarrow> gr' (hd (fresh_neighbours sh vd gr v)) = g"
    and "\<forall>n\<in>set (tl (fresh_neighbours sh vd gr v)). gr' n = g + 1"
    and "\<forall>q. q \<notin> set (fresh_neighbours sh vd gr v) \<longrightarrow> gr' q = gr q"
proof -
  define fr where "fr = fresh_neighbours sh vd gr v"
  define ag where "ag = handed_out 0 g fr"
  from assms have gr': "gr' = foldl (\<lambda>gr nk. gr(fst nk := snd nk)) gr ag"
    unfolding label_step_closed ag_def fr_def by simp
  have fst_ag: "map fst ag = fr" unfolding ag_def by (rule handed_out_fst)
  have dist: "distinct (map fst ag)"
    unfolding fst_ag fr_def by (rule fresh_neighbours_distinct)
  have first: "gr' (hd fr) = g" if "fr \<noteq> []"
  proof -
    from that obtain n ns where fr: "fr = n # ns" by (cases fr) auto
    then have "(n, g) \<in> set ag" by (simp add: ag_def)
    from fold_update_member[OF dist this, of gr] fr show ?thesis by (simp add: gr')
  qed
  have later: "gr' m = g + 1" if "m \<in> set (tl fr)" for m
  proof -
    from that obtain n ns where fr: "fr = n # ns" by (cases fr) auto
    with that have "(m, g + 1) \<in> set ag" by (auto simp: ag_def handed_out_later)
    from fold_update_member[OF dist this, of gr] show ?thesis by (simp add: gr')
  qed
  have other: "gr' q = gr q" if "q \<notin> set fr" for q
  proof -
    from that fst_ag have "q \<notin> fst ` set ag" by (metis set_map)
    from fold_update_other[OF this, of gr] show ?thesis by (simp add: gr')
  qed
  from first show "fresh_neighbours sh vd gr v \<noteq> [] \<longrightarrow> gr' (hd (fresh_neighbours sh vd gr v)) = g"
    unfolding fr_def by blast
  from later show "\<forall>n\<in>set (tl (fresh_neighbours sh vd gr v)). gr' n = g + 1"
    unfolding fr_def by blast
  from other show "\<forall>q. q \<notin> set (fresh_neighbours sh vd gr v) \<longrightarrow> gr' q = gr q"
    unfolding fr_def by blast
qed

lemma segment_points_graded:
  assumes "mset (segment_pairs seg_dic) = mset (map snd (graded_pairs plp))"
  shows "mset (segment_points seg_dic) = mset (map (\<lambda>e. fst (snd e)) (graded_pairs plp))"
proof -
  have "mset (segment_points seg_dic) = image_mset fst (mset (segment_pairs seg_dic))"
    by (simp add: segment_points_def)
  also have "\<dots> = mset (map (\<lambda>e. fst (snd e)) (graded_pairs plp))"
    unfolding assms by (simp add: image_mset.compositionality comp_def)
  finally show ?thesis .
qed

section \<open>The tree builder leaves unmatched segments out\<close>




lemma tree_points_append:
  "tree_points (Node ln (subs @ [s]) dp sl dpi ly) = tree_points (Node ln subs dp sl dpi ly) \<union> tree_points s"
  by auto





section \<open>The pipeline on the Y-shaped skeleton\<close>

lemma y_traversal:
  "map_option (\<lambda>(g, q, p). p) (label_loop (10, 11, 1) (skeleton_mask y_skeleton)
      ((\<lambda>v. 0)((0, 5, 0) := 1), [((0, 5, 0), 1, (-1, -1, -1))], [])) = Some y_pairs"
  by (simp add: label_loop_Cons label_loop_Nil
      label_step_def visit_neighbour neighbour_def is_fresh_def in_bounds_def directions_def
      y_skeleton_def y_pairs_def skeleton_mask_def record_pair_def)

lemma y_segments_built: "get_all_segments y_pairs = Inr y_segments"
  by (simp add: y_pairs_def y_segments_def
      segments_loop.simps seed_segment_def enumerate_list_def item_def)

lemma y_labelled:
  "\<exists>grades. label_vessel_grades (10, 11, 1) (skeleton_mask y_skeleton) (0, 5, 0)
     = Some (Inr (grades, y_segments))"
proof -
  from y_traversal obtain g q where
    "label_loop (10, 11, 1) (skeleton_mask y_skeleton)
       ((\<lambda>v. 0)((0, 5, 0) := 1), [((0, 5, 0), 1, (-1, -1, -1))], []) = Some (g, q, y_pairs)"
    by auto
  then show ?thesis
    by (simp add: label_vessel_grades_def np_index3_def np_index_def y_segments_built)
qed

lemma y_built:
  "build_tree_structure (Node [((0, 5, 0), (0, 0, 0))] [] [] [] [] 0) 0 y_segments
     (replicate (length y_segments + 3)
         (replicate (nat (max_list (map (\<lambda>(k, segs). py_len segs) y_segments)) + 3) 0))
   = (y_raw, [[0, 0, 0, 0], [0, 1, 0, 0], [0, 1, 0, 0], [0, 0, 0, 0], [0, 0, 0, 0]])"
  by (simp add: build_tree_structure_def build_work_def y_segments_def enumerate_list_def
      build_loop.simps attaches_def fd_get_def fd_set_def item_def py_len_def y_raw_def
      numeral_eq_Suc)

lemma y_depth: "assign_depth y_raw = Inr (y_annotated, 3, 10)"
  by (simp add: y_raw_def y_annotated_def item_def py_len_def slice_from_def)

lemma y_created: "create_new_tree_from_old y_annotated = Inr y_canonical"
  by (simp add: y_annotated_def y_canonical_def create_new_tree_from_old.simps
        find_longest_line.simps find_small_branches.simps item_def py_len_def
        slice_from_def slice_to_def argmax_def enumerate_dpi_def)

lemma y_pipeline:
  "get_tree_from_region (10, 11, 1) (0, 5, 0) y_skeleton = Some (Inr y_canonical)"
proof -
  have a: "argmin (map (sq_dist (0, 5, 0)) y_skeleton) = Inr 0"
    by (simp add: argmin_def y_skeleton_def sq_dist_def)
  have b: "those_indices (10, 11, 1) y_skeleton = Inr y_skeleton"
    by (simp add: y_skeleton_def np_index3_def np_index_def)
  have c: "y_skeleton ! 0 = (0, 5, 0)" by (simp add: y_skeleton_def)
  have d: "y_segments \<noteq> []" by (simp add: y_segments_def)
  from y_labelled obtain grades where
    l: "label_vessel_grades (10, 11, 1) (skeleton_mask y_skeleton) (0, 5, 0)
     = Some (Inr (grades, y_segments))" by blast
  show ?thesis
    unfolding get_tree_from_region_def a b
    by (simp add: c l d y_built y_depth y_created)
qed

section \<open>The claims\<close>

text \<open>
  C1. The claim: the root line of the canonical tree has as many points as the longest
  root-to-leaf path of the raw tree. The code follows, at every node, the child whose own
  longest path is largest and ignores how much of the node's line lies behind each child's
  divide index. On \<open>trunk_two_branches\<close> annotation returns length 6 and the canonical root
  line has 6 points, while the path through the second branch counts 14.
\<close>

theorem backbone_not_longest_path:
  "assign_depth trunk_two_branches = Inr (trunk_two_branches_annotated, 2, 6)
   \<and> map_sum id (\<lambda>c. py_len (line c)) (create_new_tree_from_old trunk_two_branches_annotated) = Inr 6
   \<and> max_path_count trunk_two_branches = 14"
proof (intro conjI)
  show "assign_depth trunk_two_branches = Inr (trunk_two_branches_annotated, 2, 6)"
    by (simp add: trunk_two_branches_def trunk_two_branches_annotated_def leaf_def item_def
        py_len_def slice_from_def)
  show "map_sum id (\<lambda>c. py_len (line c)) (create_new_tree_from_old trunk_two_branches_annotated)
        = Inr 6"
    by (simp add: trunk_two_branches_annotated_def create_new_tree_from_old.simps
        find_longest_line.simps find_small_branches.simps leaf_def item_def py_len_def
        slice_from_def slice_to_def argmax_def enumerate_dpi_def)
  show "max_path_count trunk_two_branches = 14"
    by (simp add: max_path_count_def trunk_two_branches_def leaf_def py_len_def slice_from_def)
qed




text \<open>
  C3. The claim: labelling fails with an EmptyMask error when the root voxel is unset.
  \<open>label_vessel_grades\<close> never reads the mask at the root: on the grid \<open>two_voxels\<close>, whose
  root \<open>(0, 0, 0)\<close> is unset, it labels the root with generation 1, goes on to its set
  neighbour and returns the grades and one segment.
\<close>

theorem unset_root_is_labelled:
  "two_voxels (0, 0, 0) = 0
   \<and> label_vessel_grades (2, 1, 1) two_voxels (0, 0, 0)
     = Some (Inr ((\<lambda>v. 0)((0, 0, 0) := 1, (1, 0, 0) := 1), [(1, [(1, [((1, 0, 0), (0, 0, 0))])])]))"
  using two_voxels_labelled by (simp add: two_voxels_def skeleton_mask_def)

text \<open>
  C3 as the code has it. For every root inside the grid whose voxel is unset, labelling
  returns a result: the root has generation 1, the voxels that have a generation are exactly
  those reachable from the root under 26-connectivity through set voxels of the grid, and the
  points of the segments are these voxels without the root.
\<close>

theorem labelling_returns:
  assumes "in_bounds sh root" "vessel_data root \<noteq> 1"
  shows "\<exists>grades seg_dic. label_vessel_grades sh vessel_data root = Some (Inr (grades, seg_dic))
           \<and> grades root = 1
           \<and> {p. grades p \<noteq> 0} = reachable sh vessel_data root
           \<and> set (segment_points seg_dic) = reachable sh vessel_data root - {root}"
proof -
  from label_vessel_grades_total[OF assms(1), of vessel_data] obtain grades plp seg_dic where
    res: "label_vessel_grades sh vessel_data root = Some (Inr (grades, seg_dic))"
    and inv: "label_inv sh vessel_data root (grades, [], plp)"
    and ms: "mset (segment_pairs seg_dic) = mset (map snd (graded_pairs plp))" by blast
  from mset_eq_setD[OF segment_points_graded[OF ms]] have sp:
    "set (segment_points seg_dic) = set (map (\<lambda>e. fst (snd e)) (graded_pairs plp))" .
  have lab: "{p. grades p \<noteq> 0} = reachable sh vessel_data root" using inv by (rule label_inv_final)
  from label_invD(2)[OF inv] label_invD(4)[OF inv]
  have "set (segment_points seg_dic) = {p. grades p \<noteq> 0} - {root}"
    unfolding sp by blast
  with res label_invD(8)[OF inv] lab show ?thesis by auto
qed

theorem labelling_returns_witness:
  "in_bounds (2, 1, 1) (0, 0, 0) \<and> two_voxels (0, 0, 0) \<noteq> 1
   \<and> (\<exists>grades seg_dic. label_vessel_grades (2, 1, 1) two_voxels (0, 0, 0) = Some (Inr (grades, seg_dic))
           \<and> grades (0, 0, 0) = 1
           \<and> {p. grades p \<noteq> 0} = reachable (2, 1, 1) two_voxels (0, 0, 0)
           \<and> set (segment_points seg_dic) = reachable (2, 1, 1) two_voxels (0, 0, 0) - {(0, 0, 0)})"
proof -
  have a: "in_bounds (2, 1, 1) (0, 0, 0)" by (simp add: in_bounds_def)
  have b: "two_voxels (0, 0, 0) \<noteq> 1" by (simp add: two_voxels_def skeleton_mask_def)
  from a b labelling_returns[of "(2, 1, 1)" "(0, 0, 0)" two_voxels, OF a b] show ?thesis by blast
qed

text \<open>
  C4. For every mask and every root inside the grid, labelling returns, the points of all
  segments of all generations together with the root are exactly the voxels reachable from
  the root under 26-connectivity, and no voxel is the point of two pairs of the segments
  (so none is in two segments); the root is the point of none.
\<close>

theorem segments_partition_reachable:
  assumes "in_bounds sh root"
  shows "\<exists>grades seg_dic. label_vessel_grades sh vessel_data root = Some (Inr (grades, seg_dic))
           \<and> set (segment_points seg_dic) \<union> {root} = reachable sh vessel_data root
           \<and> distinct (segment_points seg_dic)
           \<and> root \<notin> set (segment_points seg_dic)"
proof -
  from label_vessel_grades_total[OF assms, of vessel_data] obtain grades plp seg_dic where
    res: "label_vessel_grades sh vessel_data root = Some (Inr (grades, seg_dic))"
    and inv: "label_inv sh vessel_data root (grades, [], plp)"
    and ms: "mset (segment_pairs seg_dic) = mset (map snd (graded_pairs plp))" by blast
  have "mset (segment_points seg_dic) = image_mset fst (mset (segment_pairs seg_dic))"
    by (simp add: segment_points_def)
  also have "\<dots> = mset (map (\<lambda>e. fst (snd e)) (graded_pairs plp))"
    unfolding ms by (simp add: image_mset.compositionality comp_def)
  finally have pts: "mset (segment_points seg_dic) = mset (map (\<lambda>e. fst (snd e)) (graded_pairs plp))" .
  from mset_eq_setD[OF pts] have sp:
    "set (segment_points seg_dic) = set (map (\<lambda>e. fst (snd e)) (graded_pairs plp))" .
  from label_inv_final[OF inv] label_invD(2)[OF inv]
  have "set (segment_points seg_dic) \<union> {root} = reachable sh vessel_data root"
    unfolding sp by simp
  moreover from label_invD(3)[OF inv] pts have "distinct (segment_points seg_dic)"
    by (metis mset_eq_imp_distinct_iff)
  moreover from label_invD(4)[OF inv] have "root \<notin> set (segment_points seg_dic)"
    unfolding sp .
  ultimately show ?thesis using res by blast
qed

theorem segments_partition_reachable_witness:
  "in_bounds (2, 1, 1) (0, 0, 0)
   \<and> (\<exists>grades seg_dic. label_vessel_grades (2, 1, 1) two_voxels (0, 0, 0) = Some (Inr (grades, seg_dic))
           \<and> set (segment_points seg_dic) \<union> {(0, 0, 0)} = reachable (2, 1, 1) two_voxels (0, 0, 0)
           \<and> distinct (segment_points seg_dic)
           \<and> (0, 0, 0) \<notin> set (segment_points seg_dic))"
proof -
  have a: "in_bounds (2, 1, 1) (0, 0, 0)" by (simp add: in_bounds_def)
  from a segments_partition_reachable[OF a, of two_voxels] show ?thesis by blast
qed

text \<open>
  C5. For every pair (point, parent) of the segments the labeller returns, the generation
  of the point is the generation of the parent or one more. In one pass of the loop over the
  26 directions for a dequeued voxel \<open>v\<close> of generation \<open>g\<close>, the first unvisited qualifying
  neighbour in enumeration order receives \<open>g\<close>, every later one \<open>g + 1\<close>, and no other voxel
  changes its grade.
\<close>

theorem generation_monotone:
  assumes "in_bounds sh root"
    and "label_vessel_grades sh vessel_data root = Some (Inr (grades, seg_dic))"
  shows "(\<forall>pr\<in>set (segment_pairs seg_dic).
            grades (snd pr) \<le> grades (fst pr) \<and> grades (fst pr) \<le> grades (snd pr) + 1)
     \<and> (\<forall>v g prev gr rest plp gr' queue' plp'.
          label_step sh vessel_data (v, g, prev) (gr, rest, plp) = (gr', queue', plp') \<longrightarrow>
            (fresh_neighbours sh vessel_data gr v \<noteq> [] \<longrightarrow>
               gr' (hd (fresh_neighbours sh vessel_data gr v)) = g)
          \<and> (\<forall>n\<in>set (tl (fresh_neighbours sh vessel_data gr v)). gr' n = g + 1)
          \<and> (\<forall>q. q \<notin> set (fresh_neighbours sh vessel_data gr v) \<longrightarrow> gr' q = gr q))"
proof (intro conjI ballI allI impI)
  fix pr assume pr: "pr \<in> set (segment_pairs seg_dic)"
  from label_vessel_grades_total[OF assms(1), of vessel_data] assms(2) obtain plp where
    inv: "label_inv sh vessel_data root (grades, [], plp)"
    and ms: "mset (segment_pairs seg_dic) = mset (map snd (graded_pairs plp))" by auto
  from pr mset_eq_setD[OF ms] obtain e where e: "e \<in> set (graded_pairs plp)" "snd e = pr" by auto
  from label_invD(7)[OF inv e(1)] e(2)
  show "grades (snd pr) \<le> grades (fst pr)" "grades (fst pr) \<le> grades (snd pr) + 1" by auto
next
  fix v g prev gr rest plp gr' queue' plp'
  assume step: "label_step sh vessel_data (v, g, prev) (gr, rest, plp) = (gr', queue', plp')"
  {
    assume "fresh_neighbours sh vessel_data gr v \<noteq> []"
    with label_step_grades(1)[OF step]
    show "gr' (hd (fresh_neighbours sh vessel_data gr v)) = g" by blast
  }
  {
    fix n assume "n \<in> set (tl (fresh_neighbours sh vessel_data gr v))"
    with label_step_grades(2)[OF step] show "gr' n = g + 1" by blast
  }
  {
    fix q assume "q \<notin> set (fresh_neighbours sh vessel_data gr v)"
    with label_step_grades(3)[OF step] show "gr' q = gr q" by blast
  }
qed

theorem generation_monotone_witness:
  "in_bounds (2, 1, 1) (0, 0, 0)
   \<and> label_vessel_grades (2, 1, 1) two_voxels (0, 0, 0)
     = Some (Inr ((\<lambda>v. 0)((0, 0, 0) := 1, (1, 0, 0) := 1), [(1, [(1, [((1, 0, 0), (0, 0, 0))])])]))
   \<and> ((\<lambda>v. 0)((0, 0, 0) := 1, (1, 0, 0) := 1 :: nat)) (0, 0, 0)
       \<le> ((\<lambda>v. 0)((0, 0, 0) := 1, (1, 0, 0) := 1)) (1, 0, 0)"
proof -
  have a: "in_bounds (2, 1, 1) (0, 0, 0)" by (simp add: in_bounds_def)
  from generation_monotone[OF a two_voxels_labelled]
  have "\<forall>pr\<in>set (segment_pairs [(1, [(1, [((1, 0, 0), (0, 0, 0))])])]).
            ((\<lambda>v. 0)((0, 0, 0) := 1, (1, 0, 0) := 1 :: nat)) (snd pr)
              \<le> ((\<lambda>v. 0)((0, 0, 0) := 1, (1, 0, 0) := 1)) (fst pr)"
    by blast
  then have "((\<lambda>v. 0)((0, 0, 0) := 1, (1, 0, 0) := 1 :: nat)) (0, 0, 0)
       \<le> ((\<lambda>v. 0)((0, 0, 0) := 1, (1, 0, 0) := 1)) (1, 0, 0)"
    by (simp add: segment_pairs_def)
  with a two_voxels_labelled show ?thesis by blast
qed

lemma fork_evaluated:
  "raw_tree fork" "assign_depth fork = Inr (fork_annotated, 2, 2)"
  "create_new_tree_from_old fork_annotated = Inr fork_canonical"
  "find_small_branches fork_annotated = Inr [(leaf [3], 1)]"
  by (simp_all add: fork_def fork_annotated_def fork_canonical_def leaf_def item_def py_len_def
      slice_from_def slice_to_def argmax_def enumerate_dpi_def create_new_tree_from_old.simps
      find_longest_line.simps find_small_branches.simps)

text \<open>
  C6. The claim: on a Y with a trunk of five voxels and two arms of five voxels, rooted at
  the free trunk end, the canonical tree has a root line of length 10 and one subtree of
  length 5 attached at index 4. On \<open>y_skeleton\<close> the pipeline returns the branch at index 5.
\<close>

theorem y_branch_index_is_five:
  "map_option (map_sum id dividePointIndex) (get_tree_from_region (10, 11, 1) (0, 5, 0) y_skeleton)
   = Some (Inr [5])"
  by (simp add: y_pipeline y_canonical_def)

text \<open>
  C6 as the code has it. On \<open>y_skeleton\<close>, rooted at the free trunk end, the pipeline returns
  the canonical tree \<open>y_canonical\<close>: its root line has 10 points, it has one subtree, whose
  line has 5 points, attached at index 5. Lines run from the leaf to the root, so index 5 of
  the root line, after the five voxels of the arm, is the voxel at which the arms part.
\<close>

theorem y_skeleton_canonical_tree:
  "get_tree_from_region (10, 11, 1) (0, 5, 0) y_skeleton = Some (Inr y_canonical)
   \<and> py_len (line y_canonical) = 10
   \<and> map (\<lambda>s. py_len (line s)) (subtree y_canonical) = [5]
   \<and> dividePointIndex y_canonical = [5]
   \<and> fst (line y_canonical ! 5) = (4, 5, 0)"
  by (simp add: y_pipeline) (simp add: y_canonical_def py_len_def)

text \<open>
  C7. For every raw tree, annotation and canonicalisation succeed and every entry of
  \<open>dividePointIndex\<close> of every node of the canonical tree is an index into that node's own
  line.
\<close>

theorem canonical_divide_indices_valid:
  assumes "raw_tree t"
  shows "\<exists>t' d l c. assign_depth t = Inr (t', d, l) \<and> create_new_tree_from_old t' = Inr c
           \<and> all_nodes valid_divide_indices c"
proof -
  from assign_depth_raw[OF assms] obtain t' d where
    t': "assign_depth t = Inr (t', d, backbone_len t')" "annotated t'" by blast
  from create_annotated[OF t'(2)] t'(1) show ?thesis by blast
qed

theorem canonical_divide_indices_valid_witness:
  "raw_tree trunk_two_branches
   \<and> (\<exists>t' d l c. assign_depth trunk_two_branches = Inr (t', d, l)
         \<and> create_new_tree_from_old t' = Inr c \<and> all_nodes valid_divide_indices c)"
proof -
  have raw: "raw_tree trunk_two_branches"
    by (simp add: trunk_two_branches_def leaf_def py_len_def)
  from raw canonical_divide_indices_valid[OF raw] show ?thesis by blast
qed

text \<open>
  C8. The claim: canonicalising a canonical tree again, after the reset pass and a new
  annotation, yields the same backbone line. The canonical tree of \<open>fork\<close> has the backbone
  \<open>[pt 2, pt 1]\<close> and one side branch \<open>[pt 3]\<close>; canonicalised again its backbone is
  \<open>[pt 3, pt 1]\<close>: \<open>find_longest_line\<close> descends into a child whenever there is one.
\<close>

theorem recanonicalised_backbone_differs:
  "assign_depth fork = Inr (fork_annotated, 2, 2)
   \<and> create_new_tree_from_old fork_annotated = Inr fork_canonical
   \<and> assign_depth (empty_depth_info fork_canonical) = Inr (fork_canonical_annotated, 2, 2)
   \<and> map_sum id line (create_new_tree_from_old fork_canonical_annotated) = Inr [pt 3, pt 1]
   \<and> line fork_canonical = [pt 2, pt 1]
   \<and> [pt 3, pt 1] \<noteq> [pt 2, pt 1]"
  by (simp add: fork_def fork_annotated_def fork_canonical_def fork_canonical_annotated_def
      leaf_def pt_def item_def py_len_def
      slice_from_def slice_to_def argmax_def enumerate_dpi_def create_new_tree_from_old.simps
      find_longest_line.simps find_small_branches.simps)

text \<open>
  C8 as the code has it. For the canonical tree \<open>c\<close> of a raw tree, the reset pass, a new
  annotation and a new canonicalisation succeed, and when \<open>c\<close> has no subtree entry the new
  backbone is the line of \<open>c\<close>.
\<close>

theorem recanonicalised_backbone:
  assumes "raw_tree t" "assign_depth t = Inr (t', d, l)" "create_new_tree_from_old t' = Inr c"
  shows "\<exists>c' d' l' r. assign_depth (empty_depth_info c) = Inr (c', d', l')
     \<and> create_new_tree_from_old c' = Inr r
     \<and> (subtree c = [] \<longrightarrow> line r = line c)"
proof -
  from assign_depth_raw[OF assms(1)] assms(2) have "annotated t'" by auto
  from create_annotated[OF this] assms(3) have c: "all_nodes valid_divide_indices c"
    "all_nodes (\<lambda>n. line n \<noteq> [] \<and> deep n = []) c" by auto
  from create_lengths[OF assms(3)]
  have "all_nodes (\<lambda>n. length (dividePointIndex n) = length (subtree n)) c"
    by (rule all_nodes_mono) simp
  with c have raw: "raw_tree (empty_depth_info c)" by (intro reset_canonical_raw)
  from assign_depth_raw[OF raw] obtain c' d' where
    c': "assign_depth (empty_depth_info c) = Inr (c', d', backbone_len c')" "annotated c'" by blast
  from create_annotated[OF c'(2)] obtain r where r: "create_new_tree_from_old c' = Inr r" by blast
  from create_Inr[OF r] have lr: "find_longest_line c' = Inr (line r)" by blast
  from assign_depth_fields[OF c'(1)] have f: "line c' = line c"
    "length (subtree c') = length (subtree c)"
    by (simp_all add: empty_depth_info_fields)
  from f(2) have e: "subtree c' = [] \<longleftrightarrow> subtree c = []" by auto
  have leaf: "line r = line c" if "subtree c = []"
    using that e lr f(1) by (simp add: find_longest_line_leaf)
  from c'(1) r leaf show ?thesis by blast
qed

theorem recanonicalised_backbone_witness:
  "raw_tree one_branch \<and> assign_depth one_branch = Inr (one_branch_annotated, 2, 3)
   \<and> create_new_tree_from_old one_branch_annotated = Inr one_branch_canonical
   \<and> subtree one_branch_canonical = []
   \<and> (\<exists>c' d' l' r. assign_depth (empty_depth_info one_branch_canonical) = Inr (c', d', l')
     \<and> create_new_tree_from_old c' = Inr r \<and> line r = line one_branch_canonical)"
proof -
  have raw: "raw_tree one_branch" by (simp add: one_branch_def leaf_def py_len_def)
  have ann: "assign_depth one_branch = Inr (one_branch_annotated, 2, 3)"
    by (simp add: one_branch_def one_branch_annotated_def leaf_def item_def py_len_def slice_from_def)
  have can: "create_new_tree_from_old one_branch_annotated = Inr one_branch_canonical"
    by (simp add: one_branch_annotated_def one_branch_canonical_def leaf_def item_def py_len_def
        slice_from_def slice_to_def argmax_def enumerate_dpi_def create_new_tree_from_old.simps
        find_longest_line.simps find_small_branches.simps)
  have leaf: "subtree one_branch_canonical = []" by (simp add: one_branch_canonical_def)
  from recanonicalised_backbone[OF raw ann can] leaf raw ann can show ?thesis by blast
qed

text \<open>
  C9. The claim: after annotation the four parallel lists of every node have the same length,
  also when annotation is run again after the reset pass. \<open>empty_depth_info\<close> clears
  \<open>subLength\<close> only, so a second annotation appends to the \<open>deep\<close> list of the first: on
  \<open>one_branch\<close> the root ends with one child, one \<open>subLength\<close> entry and two \<open>deep\<close> entries.
\<close>

theorem reannotation_duplicates_deep:
  "assign_depth one_branch = Inr (one_branch_annotated, 2, 3)
   \<and> assign_depth (empty_depth_info one_branch_annotated)
       = Inr (Node [pt 2, pt 1] [Node [pt 3] [] [] [] [] 1] [1, 1] [1] [0] 0, 2, 3)"
  by (simp add: one_branch_def one_branch_annotated_def leaf_def item_def py_len_def slice_from_def)

text \<open>
  C10. In every node of a tree returned by \<open>create_new_tree_from_old\<close> the lists \<open>subtree\<close>
  and \<open>dividePointIndex\<close> have the same length, and \<open>subLength\<close> is no longer: at the root it
  has one entry for each collected branch whose own \<open>subLength\<close> is not empty. It can be
  strictly shorter: the canonical tree of \<open>fork\<close> has one subtree entry, a leaf, and no
  \<open>subLength\<close> entry.
\<close>

theorem canonical_sublength_entries:
  assumes "create_new_tree_from_old t = Inr c"
  shows "all_nodes (\<lambda>n. length (subtree n) = length (dividePointIndex n)
                        \<and> length (subLength n) \<le> length (subtree n)) c
     \<and> (\<exists>bs. find_small_branches t = Inr bs \<and> length (subtree c) = length bs
           \<and> length (subLength c) = length (filter (\<lambda>b. subLength (fst b) \<noteq> []) bs))
     \<and> create_new_tree_from_old fork_annotated = Inr fork_canonical
     \<and> length (subLength fork_canonical) < length (subtree fork_canonical)"
proof -
  from create_lengths[OF assms]
  have "all_nodes (\<lambda>n. length (subtree n) = length (dividePointIndex n)
                        \<and> length (subLength n) \<le> length (subtree n)) c"
    by (rule all_nodes_mono) simp
  moreover from create_Inr[OF assms] obtain bs where bs: "find_small_branches t = Inr bs"
    and subs: "map Inr (subtree c) = map (\<lambda>b. create_new_tree_from_old (fst b)) bs"
    and sl: "subLength c = map (\<lambda>b. max_list (subLength (fst b))) (filter (\<lambda>b. subLength (fst b) \<noteq> []) bs)"
    by blast
  from arg_cong[OF subs, of length] have "length (subtree c) = length bs" by simp
  with bs sl have "\<exists>bs. find_small_branches t = Inr bs \<and> length (subtree c) = length bs
           \<and> length (subLength c) = length (filter (\<lambda>b. subLength (fst b) \<noteq> []) bs)"
    by auto
  moreover have "length (subLength fork_canonical) < length (subtree fork_canonical)"
    by (simp add: fork_canonical_def)
  ultimately show ?thesis using fork_evaluated(3) by blast
qed

theorem canonical_sublength_entries_witness:
  "create_new_tree_from_old trunk_two_branches_annotated
     = Inr (Node (map pt [25, 24, 23, 22, 21, 1])
              [Node (map pt [34, 33, 32, 31, 10, 9, 8, 7, 6, 5, 4, 3, 2]) [] [] [] [] 0] [] [4] [5] 0)
   \<and> all_nodes (\<lambda>n. length (subtree n) = length (dividePointIndex n)
                        \<and> length (subLength n) \<le> length (subtree n))
        (Node (map pt [25, 24, 23, 22, 21, 1])
              [Node (map pt [34, 33, 32, 31, 10, 9, 8, 7, 6, 5, 4, 3, 2]) [] [] [] [] 0] [] [4] [5] 0)"
proof -
  have e: "create_new_tree_from_old trunk_two_branches_annotated
     = Inr (Node (map pt [25, 24, 23, 22, 21, 1])
              [Node (map pt [34, 33, 32, 31, 10, 9, 8, 7, 6, 5, 4, 3, 2]) [] [] [] [] 0] [] [4] [5] 0)"
    by (simp add: trunk_two_branches_annotated_def create_new_tree_from_old.simps
        find_longest_line.simps find_small_branches.simps leaf_def item_def py_len_def
        slice_from_def slice_to_def argmax_def enumerate_dpi_def)
  from e canonical_sublength_entries[OF e] show ?thesis by blast
qed

end
